theory Spec2Isabelle
  imports Main "HOL-Library.Multiset"
begin

section \<open>Text\<close>

text \<open>
  Log files are modelled as byte strings: one \<^typ>\<open>char\<close> per byte, so that the byte
  offsets of \<open>Bun.file(..).size\<close> and \<open>slice\<close> are list positions. The text functions
  below are the JavaScript string methods the watcher calls, on such strings
  (white space outside ASCII is not modelled).
\<close>

abbreviation newline :: char where
  "newline \<equiv> CHR 0x0A"

abbreviation dquote :: char where
  "dquote \<equiv> CHR 0x22"

abbreviation backslash :: char where
  "backslash \<equiv> CHR 0x5C"

text \<open>\<open>content.split("\n")\<close>: the pieces between newlines; never an empty array.\<close>

fun split_nl :: "string \<Rightarrow> string list" where
  "split_nl [] = [[]]"
| "split_nl (c # cs) =
     (if c = newline then [] # split_nl cs
      else (case split_nl cs of [] \<Rightarrow> [[c]] | l # ls \<Rightarrow> (c # l) # ls))"

text \<open>The white space \<open>String.prototype.trim\<close> strips: TAB, LF, VT, FF, CR, SP.\<close>

definition is_js_space :: "char \<Rightarrow> bool" where
  "is_js_space c \<longleftrightarrow> c \<in> set [CHR 0x09, CHR 0x0A, CHR 0x0B, CHR 0x0C, CHR 0x0D, CHR 0x20]"

definition trim :: "string \<Rightarrow> string" where
  "trim s = rev (dropWhile is_js_space (rev (dropWhile is_js_space s)))"

definition endsWith :: "string \<Rightarrow> string \<Rightarrow> bool" where
  "endsWith s suf \<longleftrightarrow> length suf \<le> length s \<and> drop (length s - length suf) s = suf"

text \<open>\<open>s.replace(pat, rep)\<close> with a string pattern: only the first occurrence is replaced.\<close>

fun replace :: "string \<Rightarrow> string \<Rightarrow> string \<Rightarrow> string" where
  "replace [] pat rep = (if pat = [] then rep else [])"
| "replace (c # cs) pat rep =
     (if take (length pat) (c # cs) = pat then rep @ drop (length pat) (c # cs)
      else c # replace cs pat rep)"

text \<open>
  The comparison of two strings character by character, negative, zero or positive:
  their lexicographic order.
\<close>

fun compare_chars :: "string \<Rightarrow> string \<Rightarrow> int" where
  "compare_chars [] [] = 0"
| "compare_chars [] (y # ys) = - 1"
| "compare_chars (x # xs) [] = 1"
| "compare_chars (x # xs) (y # ys) =
     (if (of_char x :: nat) < of_char y then - 1
      else if (of_char y :: nat) < of_char x then 1
      else compare_chars xs ys)"

section \<open>JSON.parse\<close>

text \<open>
  The values of \<open>JSON.parse\<close>. A number keeps its literal. A string holds its
  characters with the escape sequences decoded, as the bytes of their UTF-8 encoding,
  like the text of the file it came from. An object keeps its members in source order.
\<close>

datatype json =
    JNull
  | JBool bool
  | JNumber string
  | JString string
  | JArray "json list"
  | JObject "(string \<times> json) list"

definition is_json_ws :: "char \<Rightarrow> bool" where
  "is_json_ws c \<longleftrightarrow> c \<in> set [CHR 0x20, CHR 0x09, CHR 0x0A, CHR 0x0D]"

definition skip_ws :: "string \<Rightarrow> string" where
  "skip_ws s = dropWhile is_json_ws s"

definition is_digit :: "char \<Rightarrow> bool" where
  "is_digit c \<longleftrightarrow> c \<in> set ''0123456789''"

definition is_hex :: "char \<Rightarrow> bool" where
  "is_hex c \<longleftrightarrow> c \<in> set ''0123456789abcdefABCDEF''"

text \<open>
  The body of a string after its opening quote, as the pieces it is made of: a byte
  taken as it is, or the code unit an escape sequence stands for. The first argument
  is the scanner's mode: 0 in plain text, 5 right after a backslash, 1 to 4 for the
  hexadecimal digits still owed to a \<open>\u\<close> escape, whose value so far is the second
  argument.
\<close>

datatype piece = Byte char | Escape nat

definition hex_value :: "char \<Rightarrow> nat" where
  "hex_value c =
     (if is_digit c then of_char c - 48
      else if c \<in> set ''abcdef'' then of_char c - 87
      else of_char c - 55)"

definition simple_escapes :: "(char \<times> nat) list" where
  "simple_escapes =
     [(dquote, 0x22), (backslash, 0x5C), (CHR ''/'', 0x2F), (CHR ''b'', 0x08),
      (CHR ''f'', 0x0C), (CHR ''n'', 0x0A), (CHR ''r'', 0x0D), (CHR ''t'', 0x09)]"

fun scan_string :: "nat \<Rightarrow> nat \<Rightarrow> string \<Rightarrow> (piece list \<times> string) option" where
  "scan_string k acc [] = None"
| "scan_string k acc (c # cs) =
     (if k = 0 then
        (if c = dquote then Some ([], cs)
         else if c = backslash then scan_string 5 0 cs
         else if (of_char c :: nat) < 32 then None
         else map_option (apfst ((#) (Byte c))) (scan_string 0 0 cs))
      else if k = 5 then
        (case map_of simple_escapes c of
           Some code \<Rightarrow> map_option (apfst ((#) (Escape code))) (scan_string 0 0 cs)
         | None \<Rightarrow> if c = CHR ''u'' then scan_string 4 0 cs else None)
      else
        (if is_hex c then
           (if k = 1
            then map_option (apfst ((#) (Escape (16 * acc + hex_value c)))) (scan_string 0 0 cs)
            else scan_string (k - 1) (16 * acc + hex_value c) cs)
         else None))"

text \<open>
  The UTF-8 encoding of a code point. The code of half a surrogate pair is encoded
  in three bytes like any other below \<open>0x10000\<close>, which keeps apart the strings that
  JavaScript keeps apart.
\<close>

definition utf8 :: "nat \<Rightarrow> string" where
  "utf8 n =
     (if n < 0x80 then [char_of n]
      else if n < 0x800 then [char_of (0xC0 + n div 0x40), char_of (0x80 + n mod 0x40)]
      else if n < 0x10000 then
        [char_of (0xE0 + n div 0x1000), char_of (0x80 + n div 0x40 mod 0x40),
         char_of (0x80 + n mod 0x40)]
      else
        [char_of (0xF0 + n div 0x40000), char_of (0x80 + n div 0x1000 mod 0x40),
         char_of (0x80 + n div 0x40 mod 0x40), char_of (0x80 + n mod 0x40)])"

text \<open>
  The string the pieces make. Two escapes in a row that are the halves of a
  surrogate pair stand for one character.
\<close>

fun decode :: "piece list \<Rightarrow> string" where
  "decode [] = []"
| "decode (Byte c # ps) = c # decode ps"
| "decode [Escape h] = utf8 h"
| "decode (Escape h # Byte c # ps) = utf8 h @ c # decode ps"
| "decode (Escape h # Escape l # ps) =
     (if 0xD800 \<le> h \<and> h < 0xDC00 \<and> 0xDC00 \<le> l \<and> l < 0xE000
      then utf8 (0x10000 + (h - 0xD800) * 0x400 + (l - 0xDC00)) @ decode ps
      else utf8 h @ decode (Escape l # ps))"

definition scan_text :: "string \<Rightarrow> (string \<times> string) option" where
  "scan_text s = map_option (apfst decode) (scan_string 0 0 s)"

text \<open>A run of one or more digits.\<close>

definition digits1 :: "string \<Rightarrow> (string \<times> string) option" where
  "digits1 s = (if takeWhile is_digit s = [] then None
                else Some (takeWhile is_digit s, dropWhile is_digit s))"

definition scan_int :: "string \<Rightarrow> (string \<times> string) option" where
  "scan_int s =
     (case s of
        [] \<Rightarrow> None
      | d # r \<Rightarrow>
          if d = CHR ''0'' then Some ([d], r)
          else if is_digit d then Some (d # takeWhile is_digit r, dropWhile is_digit r)
          else None)"

definition scan_frac :: "string \<Rightarrow> (string \<times> string) option" where
  "scan_frac s =
     (case s of
        [] \<Rightarrow> Some ([], [])
      | d # r \<Rightarrow>
          if d = CHR ''.'' then map_option (apfst ((#) d)) (digits1 r)
          else Some ([], s))"

definition scan_exp :: "string \<Rightarrow> (string \<times> string) option" where
  "scan_exp s =
     (case s of
        [] \<Rightarrow> Some ([], [])
      | e # r \<Rightarrow>
          if e = CHR ''e'' \<or> e = CHR ''E'' then
            (case r of
               [] \<Rightarrow> None
             | g # r' \<Rightarrow>
                 if g = CHR ''+'' \<or> g = CHR ''-''
                 then map_option (apfst (\<lambda>ds. e # g # ds)) (digits1 r')
                 else map_option (apfst ((#) e)) (digits1 r))
          else Some ([], s))"

definition scan_number :: "string \<Rightarrow> (string \<times> string) option" where
  "scan_number s =
     (let (sign, s1) = (case s of [] \<Rightarrow> ([], []) | c # r \<Rightarrow> if c = CHR ''-'' then ([c], r) else ([], s))
      in case scan_int s1 of
           None \<Rightarrow> None
         | Some (i, s2) \<Rightarrow>
             (case scan_frac s2 of
                None \<Rightarrow> None
              | Some (f, s3) \<Rightarrow>
                  (case scan_exp s3 of
                     None \<Rightarrow> None
                   | Some (e, s4) \<Rightarrow> Some (sign @ i @ f @ e, s4))))"

text \<open>
  The recursive descent over values, array elements and object members. The first
  argument bounds the depth of the calls; every second call consumes a character, so
  \<open>JSON_parse\<close> below starts it high enough for the whole input.
\<close>

fun parse_value :: "nat \<Rightarrow> string \<Rightarrow> (json \<times> string) option"
  and parse_elements :: "nat \<Rightarrow> string \<Rightarrow> (json list \<times> string) option"
  and parse_members :: "nat \<Rightarrow> string \<Rightarrow> ((string \<times> json) list \<times> string) option"
where
  "parse_value 0 s = None"
| "parse_value (Suc n) s =
     (case skip_ws s of
        [] \<Rightarrow> None
      | c # cs \<Rightarrow>
          if c = CHR ''{'' then
            (case skip_ws cs of
               [] \<Rightarrow> None
             | d # r \<Rightarrow> if d = CHR ''}'' then Some (JObject [], r)
                        else map_option (apfst JObject) (parse_members n cs))
          else if c = CHR ''['' then
            (case skip_ws cs of
               [] \<Rightarrow> None
             | d # r \<Rightarrow> if d = CHR '']'' then Some (JArray [], r)
                        else map_option (apfst JArray) (parse_elements n cs))
          else if c = dquote then map_option (apfst JString) (scan_text cs)
          else if take 4 (c # cs) = ''true'' then Some (JBool True, drop 4 (c # cs))
          else if take 5 (c # cs) = ''false'' then Some (JBool False, drop 5 (c # cs))
          else if take 4 (c # cs) = ''null'' then Some (JNull, drop 4 (c # cs))
          else map_option (apfst JNumber) (scan_number (c # cs)))"
| "parse_elements 0 s = None"
| "parse_elements (Suc n) s =
     (case parse_value n s of
        None \<Rightarrow> None
      | Some (v, r) \<Rightarrow>
          (case skip_ws r of
             [] \<Rightarrow> None
           | d # r' \<Rightarrow>
               if d = CHR '','' then map_option (apfst ((#) v)) (parse_elements n r')
               else if d = CHR '']'' then Some ([v], r')
               else None))"
| "parse_members 0 s = None"
| "parse_members (Suc n) s =
     (case skip_ws s of
        [] \<Rightarrow> None
      | q # ks \<Rightarrow>
          if q = dquote then
            (case scan_text ks of
               None \<Rightarrow> None
             | Some (k, r) \<Rightarrow>
                 (case skip_ws r of
                    [] \<Rightarrow> None
                  | col # r1 \<Rightarrow>
                      if col = CHR '':'' then
                        (case parse_value n r1 of
                           None \<Rightarrow> None
                         | Some (v, r2) \<Rightarrow>
                             (case skip_ws r2 of
                                [] \<Rightarrow> None
                              | d # r3 \<Rightarrow>
                                  if d = CHR '','' then
                                    map_option (apfst ((#) (k, v))) (parse_members n r3)
                                  else if d = CHR ''}'' then Some ([(k, v)], r3)
                                  else None))
                      else None))
          else None)"

text \<open>\<open>JSON.parse(text)\<close>; \<open>None\<close> is the \<open>SyntaxError\<close> it throws.\<close>

definition JSON_parse :: "string \<Rightarrow> json option" where
  "JSON_parse s =
     (case parse_value (2 * length s + 2) s of
        None \<Rightarrow> None
      | Some (v, r) \<Rightarrow> if skip_ws r = [] then Some v else None)"

section \<open>File system and configuration\<close>

datatype error = ENOENT | ENOTDIR | EISDIR | EACCES | TypeError | CallbackError

text \<open>
  A file is readable, with its bytes, or exists with a size but cannot be read.
  Directories are kept apart from files: a path maps to the names \<open>readdirSync\<close> lists.
\<close>

datatype file_node = Regular string | Unreadable nat

record filesystem =
  dirs :: "string \<Rightarrow> string list option"
  files :: "string \<Rightarrow> file_node option"

text \<open>
  \<open>PATHS\<close> comes from \<open>./config\<close>, which is not part of the sources at hand: the log
  directory and the path of a session's log are parameters.
\<close>

record config =
  LOGS_DIR :: string
  getSessionLogPath :: "string \<Rightarrow> string"

definition existsSync :: "filesystem \<Rightarrow> string \<Rightarrow> bool" where
  "existsSync fs p =
     (case dirs fs p of
        Some names \<Rightarrow> True
      | None \<Rightarrow> (case files fs p of None \<Rightarrow> False | Some f \<Rightarrow> True))"

definition readdirSync :: "filesystem \<Rightarrow> string \<Rightarrow> error + string list" where
  "readdirSync fs p =
     (case dirs fs p of
        Some names \<Rightarrow> Inr names
      | None \<Rightarrow> (case files fs p of None \<Rightarrow> Inl ENOENT | Some f \<Rightarrow> Inl ENOTDIR))"

text \<open>\<open>statSync(p).size\<close>; a path that names no file has no size here.\<close>

definition statSync_size :: "filesystem \<Rightarrow> string \<Rightarrow> error + nat" where
  "statSync_size fs p =
     (case files fs p of
        None \<Rightarrow> Inl ENOENT
      | Some (Regular c) \<Rightarrow> Inr (length c)
      | Some (Unreadable n) \<Rightarrow> Inr n)"

definition readFileSync :: "filesystem \<Rightarrow> string \<Rightarrow> error + string" where
  "readFileSync fs p =
     (case files fs p of
        None \<Rightarrow> (if dirs fs p \<noteq> None then Inl EISDIR else Inl ENOENT)
      | Some (Regular c) \<Rightarrow> Inr c
      | Some (Unreadable n) \<Rightarrow> Inl EACCES)"

text \<open>\<open>Bun.file(p).size\<close>: 0 for a file that does not exist.\<close>

definition bun_size :: "filesystem \<Rightarrow> string \<Rightarrow> nat" where
  "bun_size fs p =
     (case files fs p of
        None \<Rightarrow> 0
      | Some (Regular c) \<Rightarrow> length c
      | Some (Unreadable n) \<Rightarrow> n)"

text \<open>
  \<open>Bun.file(p).slice(a, b).text()\<close>, when the promise settles: the bytes from \<open>a\<close> up
  to \<open>b\<close>, or the error the promise is rejected with.
\<close>

definition slice_text :: "filesystem \<Rightarrow> string \<Rightarrow> nat \<Rightarrow> nat \<Rightarrow> error + string" where
  "slice_text fs p a b =
     (case files fs p of
        None \<Rightarrow> Inl ENOENT
      | Some (Regular c) \<Rightarrow> Inr (take (b - a) (drop a c))
      | Some (Unreadable n) \<Rightarrow> Inl EACCES)"

text \<open>\<open>join(dir, filename)\<close> for a normalised directory path and a plain file name.\<close>

definition path_join :: "string \<Rightarrow> string \<Rightarrow> string" where
  "path_join dir filename = dir @ ''/'' @ filename"

section \<open>The watcher\<close>

text \<open>
  The fields of \<open>LogFileWatcher\<close>. \<open>interval\<close> tells whether the timer is set. A
  subscriber is the reference of a callback; the \<open>Set\<close> of callbacks is the list of
  its members in insertion order, which is the order a \<open>for .. of\<close> visits them in.
\<close>

record watcher =
  lastSize :: nat
  interval :: bool
  subscribers :: "nat list"
  currentSessionId :: "string option"

definition new_watcher :: watcher where
  "new_watcher = \<lparr>lastSize = 0, interval = False, subscribers = [], currentSessionId = None\<rparr>"

definition set_add :: "nat \<Rightarrow> nat list \<Rightarrow> nat list" where
  "set_add x xs = (if x \<in> set xs then xs else xs @ [x])"

definition set_delete :: "nat \<Rightarrow> nat list \<Rightarrow> nat list" where
  "set_delete x xs = removeAll x xs"

text \<open>\<open>!this.currentSessionId\<close> holds for \<open>null\<close> and for the empty string.\<close>

definition getLogFilePath :: "config \<Rightarrow> watcher \<Rightarrow> string option" where
  "getLogFilePath cfg w =
     (case currentSessionId w of
        None \<Rightarrow> None
      | Some sid \<Rightarrow> if sid = [] then None else Some (getSessionLogPath cfg sid))"

definition getFileSize :: "config \<Rightarrow> filesystem \<Rightarrow> watcher \<Rightarrow> nat" where
  "getFileSize cfg fs w =
     (case getLogFilePath cfg w of
        None \<Rightarrow> 0
      | Some logPath \<Rightarrow> bun_size fs logPath)"

definition start :: "config \<Rightarrow> filesystem \<Rightarrow> watcher \<Rightarrow> watcher" where
  "start cfg fs w =
     (if interval w then w
      else w\<lparr>lastSize := getFileSize cfg fs w, interval := True\<rparr>)"

definition stop :: "watcher \<Rightarrow> watcher" where
  "stop w = (if interval w then w\<lparr>interval := False\<rparr> else w)"

text \<open>The handle \<open>subscribe\<close> returns: \<open>() => this.subscribers.delete(callback)\<close>.\<close>

definition unsubscribe :: "nat \<Rightarrow> watcher \<Rightarrow> watcher" where
  "unsubscribe callback w = w\<lparr>subscribers := set_delete callback (subscribers w)\<rparr>"

definition subscribe :: "nat \<Rightarrow> watcher \<Rightarrow> watcher \<times> (watcher \<Rightarrow> watcher)" where
  "subscribe callback w =
     (w\<lparr>subscribers := set_add callback (subscribers w)\<rparr>, unsubscribe callback)"

definition setSession :: "config \<Rightarrow> filesystem \<Rightarrow> string \<Rightarrow> watcher \<Rightarrow> watcher" where
  "setSession cfg fs sid w =
     (let w1 = w\<lparr>currentSessionId := Some sid\<rparr>
      in w1\<lparr>lastSize := getFileSize cfg fs w1\<rparr>)"

definition getCurrentSessionId :: "watcher \<Rightarrow> string option" where
  "getCurrentSessionId w = currentSessionId w"

text \<open>The loop of \<open>parseLines\<close>: a line that does not parse is skipped.\<close>

fun decode_lines :: "string list \<Rightarrow> json list" where
  "decode_lines [] = []"
| "decode_lines (line # lines) =
     (case JSON_parse line of
        None \<Rightarrow> decode_lines lines
      | Some entry \<Rightarrow> entry # decode_lines lines)"

definition parseLines :: "string \<Rightarrow> json list" where
  "parseLines content = decode_lines (filter (\<lambda>line. trim line \<noteq> []) (split_nl content))"

text \<open>
  \<open>getAllEntries\<close>: whatever the \<open>try\<close> block raises is caught and turned into the
  empty array.
\<close>

definition getAllEntries :: "config \<Rightarrow> filesystem \<Rightarrow> watcher \<Rightarrow> error + json list" where
  "getAllEntries cfg fs w =
     (case getLogFilePath cfg w of
        None \<Rightarrow> Inr []
      | Some logPath \<Rightarrow>
          (case (if bun_size fs logPath = 0 then Inr []
                 else (case readFileSync fs logPath of
                         Inl e \<Rightarrow> Inl e
                       | Inr content \<Rightarrow> Inr (parseLines content))) of
             Inl e \<Rightarrow> Inr []
           | Inr entries \<Rightarrow> Inr entries))"

text \<open>
  \<open>checkForChanges\<close> up to its return. On growth it asks for the new bytes and moves
  \<open>lastSize\<close>; the entries are emitted later, by the callback given to \<open>then\<close>, when
  the read has settled. The request is returned with the new state.
\<close>

record read_request =
  rpath :: string
  rstart :: nat
  rend :: nat

definition checkForChanges :: "config \<Rightarrow> filesystem \<Rightarrow> watcher \<Rightarrow> watcher \<times> read_request option" where
  "checkForChanges cfg fs w =
     (let currentSize = getFileSize cfg fs w
      in if currentSize > lastSize w then
           (case getLogFilePath cfg w of
              None \<Rightarrow> (w, None)
            | Some logPath \<Rightarrow>
                (w\<lparr>lastSize := currentSize\<rparr>,
                 Some \<lparr>rpath = logPath, rstart = lastSize w, rend = currentSize\<rparr>))
         else if currentSize < lastSize w then (w\<lparr>lastSize := currentSize\<rparr>, None)
         else (w, None))"

subsection \<open>Subscribers\<close>

text \<open>
  What the callbacks do is a parameter: \<open>raises cb entry\<close> tells whether callback \<open>cb\<close>
  throws on \<open>entry\<close>. The output records every call made, in order, and every line
  written with \<open>console.error\<close>.
\<close>

record trace =
  calls :: "(nat \<times> json) list"
  console :: "string list"

definition invoke :: "(nat \<Rightarrow> json \<Rightarrow> bool) \<Rightarrow> nat \<Rightarrow> json \<Rightarrow> error + unit" where
  "invoke raises cb entry = (if raises cb entry then Inl CallbackError else Inr ())"

fun emit_to :: "(nat \<Rightarrow> json \<Rightarrow> bool) \<Rightarrow> json \<Rightarrow> nat list \<Rightarrow> trace \<Rightarrow> trace" where
  "emit_to raises entry [] out = out"
| "emit_to raises entry (cb # cbs) out =
     (let called = out\<lparr>calls := calls out @ [(cb, entry)]\<rparr>
      in emit_to raises entry cbs
           (case invoke raises cb entry of
              Inl e \<Rightarrow> called\<lparr>console := console called @ [''Subscriber error:'']\<rparr>
            | Inr u \<Rightarrow> called))"

definition emit :: "(nat \<Rightarrow> json \<Rightarrow> bool) \<Rightarrow> watcher \<Rightarrow> json \<Rightarrow> trace \<Rightarrow> trace" where
  "emit raises w entry out = emit_to raises entry (subscribers w) out"

text \<open>The callback of \<open>slice.text().then\<close>: parse the text read, emit each entry.\<close>

fun emit_each :: "(nat \<Rightarrow> json \<Rightarrow> bool) \<Rightarrow> watcher \<Rightarrow> json list \<Rightarrow> trace \<Rightarrow> trace" where
  "emit_each raises w [] out = out"
| "emit_each raises w (entry # entries) out = emit_each raises w entries (emit raises w entry out)"

definition on_text :: "(nat \<Rightarrow> json \<Rightarrow> bool) \<Rightarrow> watcher \<Rightarrow> string \<Rightarrow> trace \<Rightarrow> trace" where
  "on_text raises w content out = emit_each raises w (parseLines content) out"

subsection \<open>The event loop\<close>

text \<open>
  The process runs one callback at a time: the timer's, which is \<open>checkForChanges\<close>,
  that of a read that has settled, or a request handler of the server, which calls
  \<open>setSession\<close>. Every tick that finds growth starts a read of its own, and nothing
  orders the reads in flight: \<open>Settle k\<close> is the settlement of any one of them, the
  one at position \<open>k\<close> counting from the oldest, and does nothing when fewer are in
  flight. Between callbacks an outside writer may append to a file or replace its
  content. An error result of a step is the rejection of a read, which nothing
  handles.
\<close>

record loop =
  disk :: filesystem
  watch :: watcher
  in_flight :: "read_request list"
  emitted :: trace

datatype event =
    Append string string
  | Rewrite string string
  | Timer
  | Settle nat
  | SetSession string

definition append_file :: "filesystem \<Rightarrow> string \<Rightarrow> string \<Rightarrow> filesystem" where
  "append_file fs p bytes =
     fs\<lparr>files := (files fs)(p \<mapsto>
        (case files fs p of
           None \<Rightarrow> Regular bytes
         | Some (Regular c) \<Rightarrow> Regular (c @ bytes)
         | Some (Unreadable n) \<Rightarrow> Unreadable (n + length bytes)))\<rparr>"

definition rewrite_file :: "filesystem \<Rightarrow> string \<Rightarrow> string \<Rightarrow> filesystem" where
  "rewrite_file fs p bytes = fs\<lparr>files := (files fs)(p \<mapsto> Regular bytes)\<rparr>"

fun step :: "config \<Rightarrow> (nat \<Rightarrow> json \<Rightarrow> bool) \<Rightarrow> event \<Rightarrow> loop \<Rightarrow> error + loop" where
  "step cfg raises (Append p bytes) L = Inr (L\<lparr>disk := append_file (disk L) p bytes\<rparr>)"
| "step cfg raises (Rewrite p bytes) L = Inr (L\<lparr>disk := rewrite_file (disk L) p bytes\<rparr>)"
| "step cfg raises Timer L =
     (if interval (watch L) then
        (case checkForChanges cfg (disk L) (watch L) of
           (w', None) \<Rightarrow> Inr (L\<lparr>watch := w'\<rparr>)
         | (w', Some req) \<Rightarrow> Inr (L\<lparr>watch := w', in_flight := in_flight L @ [req]\<rparr>))
      else Inr L)"
| "step cfg raises (Settle k) L =
     (case drop k (in_flight L) of
        [] \<Rightarrow> Inr L
      | req # reqs \<Rightarrow>
          (case slice_text (disk L) (rpath req) (rstart req) (rend req) of
             Inl e \<Rightarrow> Inl e
           | Inr content \<Rightarrow>
               Inr (L\<lparr>in_flight := take k (in_flight L) @ reqs,
                      emitted := on_text raises (watch L) content (emitted L)\<rparr>)))"
| "step cfg raises (SetSession sid) L =
     Inr (L\<lparr>watch := setSession cfg (disk L) sid (watch L)\<rparr>)"

fun run :: "config \<Rightarrow> (nat \<Rightarrow> json \<Rightarrow> bool) \<Rightarrow> event list \<Rightarrow> loop \<Rightarrow> error + loop" where
  "run cfg raises [] L = Inr L"
| "run cfg raises (ev # evs) L =
     (case step cfg raises ev L of
        Inl e \<Rightarrow> Inl e
      | Inr L' \<Rightarrow> run cfg raises evs L')"

text \<open>The entries a subscriber has been called with, in order.\<close>

definition received :: "nat \<Rightarrow> trace \<Rightarrow> json list" where
  "received cb out = map snd (filter (\<lambda>c. fst c = cb) (calls out))"

text \<open>All of a loop state but the console.\<close>

definition but_console :: "loop \<Rightarrow> filesystem \<times> watcher \<times> read_request list \<times> (nat \<times> json) list" where
  "but_console L = (disk L, watch L, in_flight L, calls (emitted L))"

text \<open>
  The events that leave the watcher on its session and every byte written where it
  is: appends, ticks and settlements.
\<close>

fun keeps_history :: "event \<Rightarrow> bool" where
  "keeps_history (Append p bytes) = True"
| "keeps_history (Rewrite p bytes) = False"
| "keeps_history Timer = True"
| "keeps_history (Settle k) = True"
| "keeps_history (SetSession sid) = False"

text \<open>What a loop state holds besides the disk.\<close>

definition live :: "loop \<Rightarrow> watcher \<times> read_request list \<times> trace" where
  "live L = (watch L, in_flight L, emitted L)"

section \<open>Session index\<close>

text \<open>
  \<open>first_entry\<close> and \<open>last_entry\<close> hold the value found as timestamp, whatever it is: a
  string in a log of \<open>LogEntry\<close> lines, and the empty string where there is none.
\<close>

record SessionInfo =
  session_id :: string
  file_path :: string
  first_entry :: json
  last_entry :: json
  entry_count :: nat
  size_bytes :: nat

text \<open>
  \<open>parsed.timestamp ?? ''\<close>. Reading a property of \<open>null\<close> raises a \<open>TypeError\<close>; of
  any other value that has no such property it gives \<open>undefined\<close>, and so the empty
  string; of an object, the member written last, and the empty string when that is
  \<open>null\<close>.
\<close>

definition timestamp_or_empty :: "json \<Rightarrow> error + json" where
  "timestamp_or_empty parsed =
     (case parsed of
        JNull \<Rightarrow> Inl TypeError
      | JObject members \<Rightarrow>
          (case map_of (rev members) ''timestamp'' of
             None \<Rightarrow> Inr (JString [])
           | Some JNull \<Rightarrow> Inr (JString [])
           | Some v \<Rightarrow> Inr v)
      | v \<Rightarrow> Inr (JString []))"

text \<open>
  The \<open>try\<close> block that fills \<open>first_entry\<close> and \<open>last_entry\<close>: both lines are parsed
  before either timestamp is stored, and whatever is raised is caught and leaves the
  variables as they are at that point.
\<close>

definition entry_times :: "string list \<Rightarrow> json \<times> json" where
  "entry_times lines =
     (if length lines > 0 then
        (let firstLine = hd lines; lastLine = last lines
         in if firstLine \<noteq> [] \<and> lastLine \<noteq> [] then
              (case JSON_parse firstLine of
                 None \<Rightarrow> (JString [], JString [])
               | Some firstParsed \<Rightarrow>
                   (case JSON_parse lastLine of
                      None \<Rightarrow> (JString [], JString [])
                    | Some lastParsed \<Rightarrow>
                        (case timestamp_or_empty firstParsed of
                           Inl e \<Rightarrow> (JString [], JString [])
                         | Inr first_ts \<Rightarrow>
                             (case timestamp_or_empty lastParsed of
                                Inl e \<Rightarrow> (first_ts, JString [])
                              | Inr last_ts \<Rightarrow> (first_ts, last_ts)))))
            else (JString [], JString []))
      else (JString [], JString []))"

text \<open>The function mapped over the file names.\<close>

definition session_info :: "config \<Rightarrow> filesystem \<Rightarrow> string \<Rightarrow> error + SessionInfo" where
  "session_info cfg fs filename =
     (let sid = replace filename ''.txt'' [];
          path = path_join (LOGS_DIR cfg) filename
      in case statSync_size fs path of
           Inl e \<Rightarrow> Inl e
         | Inr stat_size \<Rightarrow>
             (case readFileSync fs path of
                Inl e \<Rightarrow> Inl e
              | Inr content \<Rightarrow>
                  (let lines = filter (\<lambda>l. l \<noteq> []) (split_nl (trim content))
                   in case entry_times lines of
                        (first_ts, last_ts) \<Rightarrow>
                          Inr \<lparr>session_id = sid, file_path = path,
                               first_entry = first_ts, last_entry = last_ts,
                               entry_count = length lines, size_bytes = stat_size\<rparr>)))"

text \<open>\<open>files.map(f)\<close>, stopping at the first call that raises.\<close>

fun map_all :: "('a \<Rightarrow> error + 'b) \<Rightarrow> 'a list \<Rightarrow> error + 'b list" where
  "map_all f [] = Inr []"
| "map_all f (x # xs) =
     (case f x of
        Inl e \<Rightarrow> Inl e
      | Inr y \<Rightarrow> (case map_all f xs of Inl e \<Rightarrow> Inl e | Inr ys \<Rightarrow> Inr (y # ys)))"

text \<open>
  \<open>Array.prototype.sort\<close> with a comparison function, which may raise. The elements
  are placed one after the other, from the first: \<open>place\<close> moves the element \<open>v\<close>
  towards the front past every element \<open>t\<close> placed before it for which \<open>cmp v t\<close> is
  negative, and stops at the first for which it is not. The elements placed so far
  are kept last first. A comparison that raises ends the sort with its error. Which
  pairs are compared is the engine's choice; for a comparison function that is a
  consistent order the result is that of any stable sort.
\<close>

fun place :: "('a \<Rightarrow> 'a \<Rightarrow> error + int) \<Rightarrow> 'a \<Rightarrow> 'a list \<Rightarrow> error + 'a list" where
  "place cmp v [] = Inr [v]"
| "place cmp v (t # ts) =
     (case cmp v t of
        Inl e \<Rightarrow> Inl e
      | Inr n \<Rightarrow>
          if n < 0 then (case place cmp v ts of Inl e \<Rightarrow> Inl e | Inr r \<Rightarrow> Inr (t # r))
          else Inr (v # t # ts))"

fun sort_from :: "('a \<Rightarrow> 'a \<Rightarrow> error + int) \<Rightarrow> 'a list \<Rightarrow> 'a list \<Rightarrow> error + 'a list" where
  "sort_from cmp [] placed = Inr (rev placed)"
| "sort_from cmp (x # xs) placed =
     (case place cmp x placed of
        Inl e \<Rightarrow> Inl e
      | Inr placed' \<Rightarrow> sort_from cmp xs placed')"

definition sort_by :: "('a \<Rightarrow> 'a \<Rightarrow> error + int) \<Rightarrow> 'a list \<Rightarrow> error + 'a list" where
  "sort_by cmp xs = sort_from cmp xs []"

definition is_log_name :: "string \<Rightarrow> bool" where
  "is_log_name f \<longleftrightarrow> endsWith f ''.txt'' \<and> f \<noteq> ''.gitkeep''"

text \<open>
  The comparison function \<open>(a, b) => b.last_entry.localeCompare(a.last_entry)\<close>.
  \<open>String.prototype.localeCompare\<close> compares a string with the string of its argument
  by the collation of the runtime's locale, which is not modelled: it is the parameter
  \<open>localeCompare\<close>, taking the string and the argument. A value that is no string has
  no such method, and the call raises a \<open>TypeError\<close>.
\<close>

definition compare_sessions ::
  "(string \<Rightarrow> json \<Rightarrow> int) \<Rightarrow> SessionInfo \<Rightarrow> SessionInfo \<Rightarrow> error + int" where
  "compare_sessions localeCompare a b =
     (case last_entry b of
        JString s \<Rightarrow> Inr (localeCompare s (last_entry a))
      | other \<Rightarrow> Inl TypeError)"

definition listSessions ::
  "(string \<Rightarrow> json \<Rightarrow> int) \<Rightarrow> config \<Rightarrow> filesystem \<Rightarrow> error + SessionInfo list" where
  "listSessions localeCompare cfg fs =
     (let dir = LOGS_DIR cfg
      in if \<not> existsSync fs dir then Inr []
         else (case readdirSync fs dir of
                 Inl e \<Rightarrow> Inl e
               | Inr names \<Rightarrow>
                   (case map_all (session_info cfg fs) (filter is_log_name names) of
                      Inl e \<Rightarrow> Inl e
                    | Inr infos \<Rightarrow> sort_by (compare_sessions localeCompare) infos)))"

subsection \<open>Collation\<close>

text \<open>
  The comparison of two strings by the weights \<open>w\<close> of their characters, negative,
  zero or positive.
\<close>

fun compare_by :: "(char \<Rightarrow> nat) \<Rightarrow> string \<Rightarrow> string \<Rightarrow> int" where
  "compare_by w [] [] = 0"
| "compare_by w [] (y # ys) = - 1"
| "compare_by w (x # xs) [] = 1"
| "compare_by w (x # xs) (y # ys) =
     (if w x < w y then - 1
      else if w y < w x then 1
      else compare_by w xs ys)"

fun rank :: "string \<Rightarrow> char \<Rightarrow> nat" where
  "rank [] c = 0"
| "rank (x # xs) c = (if x = c then 0 else Suc (rank xs c))"

text \<open>
  The characters of ISO-8601 timestamps in the order in which the collation of the
  root locale puts them: the hyphen, the colon, the full stop, the plus sign, the
  digits, \<open>T\<close> and \<open>Z\<close>. In the order of their codes the plus sign comes first, then
  the hyphen, the full stop, the digits, the colon, \<open>T\<close> and \<open>Z\<close>.
\<close>

definition iso_weight :: "char \<Rightarrow> nat" where
  "iso_weight c = rank ''-:.+0123456789TZ'' c"

text \<open>
  \<open>localeCompare\<close> as far as the examples need it: on strings made of those
  characters. It gives every other character one weight after them, and answers 0
  for an argument that is no string; neither occurs in the examples.
\<close>

definition iso_collation :: "string \<Rightarrow> json \<Rightarrow> int" where
  "iso_collation s v = (case v of JString t \<Rightarrow> compare_by iso_weight s t | other \<Rightarrow> 0)"

text \<open>
  The comparison \<open>coll\<close> is a consistent order on the strings \<open>ts\<close>: when \<open>s\<close> is not
  before \<open>t\<close> then \<open>t\<close> is not after \<open>s\<close>, and not being after is transitive.
\<close>

definition consistent_on :: "(string \<Rightarrow> json \<Rightarrow> int) \<Rightarrow> string list \<Rightarrow> bool" where
  "consistent_on coll ts \<longleftrightarrow>
     list_all (\<lambda>s. list_all (\<lambda>t.
        (0 \<le> coll s (JString t) \<longrightarrow> coll t (JString s) \<le> 0)
        \<and> list_all (\<lambda>u. coll s (JString t) \<le> 0 \<and> coll t (JString u) \<le> 0
                          \<longrightarrow> coll s (JString u) \<le> 0) ts) ts) ts"

text \<open>The string of a timestamp that is one.\<close>

definition stamp_of :: "json \<Rightarrow> string" where
  "stamp_of v = (case v of JString s \<Rightarrow> s | other \<Rightarrow> [])"

section \<open>Scenarios\<close>

text \<open>Lines written to a log, each followed by its newline.\<close>

fun join_lines :: "string list \<Rightarrow> string" where
  "join_lines [] = []"
| "join_lines (l # ls) = l @ newline # join_lines ls"

text \<open>A well-formed line: no newline inside, and \<open>JSON.parse\<close> accepts it.\<close>

definition json_line :: "string \<Rightarrow> bool" where
  "json_line l \<longleftrightarrow> newline \<notin> set l \<and> JSON_parse l \<noteq> None"

text \<open>
  A poll tick whose read settles before anything else happens: the timer's callback,
  then the callback of the oldest read in flight, which is the read the tick issued
  when none was in flight before.
\<close>

abbreviation poll :: "event list" where
  "poll \<equiv> [Timer, Settle 0]"

text \<open>
  A schedule of appends and poll ticks on the file \<open>p\<close>: for each tick in turn, the
  appends made since the tick before, each a batch of lines.
\<close>

fun schedule :: "string \<Rightarrow> string list list list \<Rightarrow> event list" where
  "schedule p [] = []"
| "schedule p (appends # ticks) =
     map (\<lambda>ls. Append p (join_lines ls)) appends @ poll @ schedule p ticks"

text \<open>A configuration and a started watcher on session \<open>s1\<close>, for the examples.\<close>

definition demo_cfg :: config where
  "demo_cfg = \<lparr>LOGS_DIR = ''logs'', getSessionLogPath = (\<lambda>sid. ''logs/'' @ sid @ ''.txt'')\<rparr>"

definition demo_loop :: "string \<Rightarrow> loop" where
  "demo_loop c =
     \<lparr>disk = \<lparr>dirs = Map.empty, files = [''logs/s1.txt'' \<mapsto> Regular c]\<rparr>,
      watch = \<lparr>lastSize = length c, interval = True, subscribers = [1, 2],
               currentSessionId = Some ''s1''\<rparr>,
      in_flight = [],
      emitted = \<lparr>calls = [], console = []\<rparr>\<rparr>"

text \<open>The file at \<open>p\<close> holds the bytes \<open>c\<close> and can be read; an absent file holds none.\<close>

definition holds :: "filesystem \<Rightarrow> string \<Rightarrow> string \<Rightarrow> bool" where
  "holds fs p c =
     (case files fs p of
        None \<Rightarrow> c = []
      | Some (Regular c') \<Rightarrow> c' = c
      | Some (Unreadable n) \<Rightarrow> False)"


text \<open>A log directory with three sessions, listed in the order \<open>s1\<close>, \<open>s2\<close>, \<open>s3\<close>.\<close>

definition three_sessions :: filesystem where
  \<open>three_sessions =
     \<lparr>dirs = [''logs'' \<mapsto> [''s1.txt'', ''s2.txt'', ''.gitkeep'', ''s3.txt'']],
      files = [''logs/s1.txt'' \<mapsto> Regular (join_lines [''{"timestamp":"2024-01-01T10:00:00Z"}'']),
               ''logs/s2.txt'' \<mapsto> Regular (join_lines [''{"timestamp":"2024-01-02T09:00:00Z"}'']),
               ''logs/s3.txt'' \<mapsto> Regular (join_lines [''{"timestamp":"2024-01-01T09:30:00Z"}'',
                                                        ''{"timestamp":"2024-01-01T15:00:00Z"}''])]\<rparr>\<close>

text \<open>
  A log directory with two sessions that end at the same local time, one hour west
  and one hour east of Greenwich.
\<close>

definition offset_sessions :: filesystem where
  \<open>offset_sessions =
     \<lparr>dirs = [''logs'' \<mapsto> [''west.txt'', ''east.txt'']],
      files = [''logs/west.txt'' \<mapsto> Regular (join_lines [''{"timestamp":"2024-01-01T10:00:00-01:00"}'']),
               ''logs/east.txt'' \<mapsto> Regular (join_lines [''{"timestamp":"2024-01-01T10:00:00+01:00"}''])]\<rparr>\<close>

text \<open>Two appends to the demo log, each followed by the timer only.\<close>

definition two_ticks :: "event list" where
  "two_ticks = [Append ''logs/s1.txt'' (join_lines [''1'']), Timer,
                Append ''logs/s1.txt'' (join_lines [''2'']), Timer]"


subsection \<open>Ticks and reads interleaved\<close>

text \<open>
  What happens around a watcher of the file \<open>p\<close>: lines are written to the file, the
  timer fires, the oldest read in flight arrives.
\<close>

datatype action = Write "string list" | Fire | Arrive

fun act :: "string \<Rightarrow> action \<Rightarrow> event" where
  "act p (Write ls) = Append p (join_lines ls)"
| "act p Fire = Timer"
| "act p Arrive = Settle 0"

fun written :: "action list \<Rightarrow> string list" where
  "written [] = []"
| "written (Write ls # acts) = ls @ written acts"
| "written (Fire # acts) = written acts"
| "written (Arrive # acts) = written acts"

text \<open>The reads that cover consecutive batches of lines, the first starting at \<open>a\<close>.\<close>

fun requests :: "string \<Rightarrow> nat \<Rightarrow> string list list \<Rightarrow> read_request list" where
  "requests p a [] = []"
| "requests p a (g # gs) =
     \<lparr>rpath = p, rstart = a, rend = a + length (join_lines g)\<rparr>
       # requests p (a + length (join_lines g)) gs"

text \<open>
  The state of a started watcher that was attached to \<open>p\<close> when it held \<open>c0\<close>: the
  lines \<open>seen\<close> have been read since and emitted, reads are in flight for the batches
  of \<open>queue\<close>, and the lines \<open>fresh\<close> are in the file but no tick has found them yet.
\<close>

definition tailing ::
  "config \<Rightarrow> string \<Rightarrow> string \<Rightarrow> loop \<Rightarrow> string list \<Rightarrow> string list list \<Rightarrow> string list \<Rightarrow> bool" where
  "tailing cfg p c0 L seen queue fresh \<longleftrightarrow>
     interval (watch L) \<and> getLogFilePath cfg (watch L) = Some p
     \<and> holds (disk L) p (c0 @ join_lines (seen @ concat queue @ fresh))
     \<and> lastSize (watch L) = length c0 + length (join_lines (seen @ concat queue))
     \<and> in_flight L = requests p (length c0 + length (join_lines seen)) queue
     \<and> [] \<notin> set queue
     \<and> list_all json_line (concat queue @ fresh)"

text \<open>Three writes with two ticks between them; one read arrives before the last write.\<close>

definition demo_acts :: "action list" where
  \<open>demo_acts = [Write [''{"a":1}''], Fire, Write [''2''], Fire, Arrive, Write [], Write [''[3]'']]\<close>

text \<open>
  Two loop states that differ in the first \<open>n\<close> bytes of the file \<open>p\<close> at most, while
  the watcher of both tracks \<open>p\<close> from \<open>n\<close> or later and every read in flight starts
  at \<open>n\<close> or later.
\<close>

definition same_after :: "config \<Rightarrow> string \<Rightarrow> nat \<Rightarrow> loop \<Rightarrow> loop \<Rightarrow> bool" where
  "same_after cfg p n L1 L2 \<longleftrightarrow>
     live L1 = live L2
     \<and> getLogFilePath cfg (watch L1) = Some p
     \<and> n \<le> lastSize (watch L1)
     \<and> list_all (\<lambda>r. rpath r = p \<and> n \<le> rstart r) (in_flight L1)
     \<and> (\<exists>f1 f2. files (disk L1) p = Some (Regular f1) \<and> files (disk L2) p = Some (Regular f2)
            \<and> n \<le> length f1 \<and> length f2 = length f1 \<and> drop n f1 = drop n f2)"

text \<open>
  The demo watcher right after \<open>setSession\<close> on \<open>s1\<close>, whose log holds the one line
  \<open>l\<close>.
\<close>

definition switched_disk :: "string \<Rightarrow> filesystem" where
  "switched_disk l = \<lparr>dirs = Map.empty, files = [''logs/s1.txt'' \<mapsto> Regular (join_lines [l])]\<rparr>"

definition switched_loop :: "string \<Rightarrow> loop" where
  "switched_loop l =
     \<lparr>disk = switched_disk l,
      watch = setSession demo_cfg (switched_disk l) ''s1'' (watch (demo_loop [])),
      in_flight = [],
      emitted = \<lparr>calls = [], console = []\<rparr>\<rparr>"

text \<open>A log directory whose one log exists and cannot be read.\<close>

definition locked_disk :: filesystem where
  "locked_disk = \<lparr>dirs = [''logs'' \<mapsto> [''s1.txt'']],
                   files = [''logs/s1.txt'' \<mapsto> Unreadable 10]\<rparr>"

text \<open>A disk with nothing on it.\<close>

definition empty_disk :: filesystem where
  "empty_disk = \<lparr>dirs = Map.empty, files = Map.empty\<rparr>"

text \<open>A log directory whose one file has the extension twice in its name.\<close>

definition odd_name_disk :: filesystem where
  "odd_name_disk = \<lparr>dirs = [''logs'' \<mapsto> [''a.txtb.txt'']],
                     files = [''logs/a.txtb.txt'' \<mapsto> Regular []]\<rparr>"


section \<open>Subscribers: properties\<close>

lemma calls_emit_to:
  "calls (emit_to raises entry cbs tr) = calls tr @ map (\<lambda>cb. (cb, entry)) cbs"
  by (induction cbs arbitrary: tr) (auto simp: Let_def invoke_def)

lemma console_emit_to:
  "console (emit_to raises entry cbs tr) =
     console tr @ map (\<lambda>cb. ''Subscriber error:'') (filter (\<lambda>cb. raises cb entry) cbs)"
  by (induction cbs arbitrary: tr) (auto simp: Let_def invoke_def)

lemma received_emit_to:
  "received cb (emit_to raises entry cbs tr) =
     received cb tr @ replicate (count_list cbs cb) entry"
  by (induction cbs arbitrary: tr)
     (auto simp: Let_def invoke_def received_def replicate_app_Cons_same)

lemma count_list_distinct:
  "distinct xs \<Longrightarrow> count_list xs x = (if x \<in> set xs then 1 else 0)"
  by (induction xs) auto

lemma set_delete_filter: "set_delete x xs = filter (\<lambda>y. y \<noteq> x) xs"
  by (induction xs) (auto simp: set_delete_def)

lemma distinct_set_add: "distinct xs \<Longrightarrow> distinct (set_add x xs)"
  by (simp add: set_add_def)

lemma distinct_set_delete: "distinct xs \<Longrightarrow> distinct (set_delete x xs)"
  by (simp add: set_delete_def distinct_removeAll)

lemma calls_emit_each:
  "calls (emit_each raises w entries tr) =
     calls tr @ concat (map (\<lambda>entry. map (\<lambda>cb. (cb, entry)) (subscribers w)) entries)"
  by (induction entries arbitrary: tr) (auto simp: emit_def calls_emit_to)

lemma received_emit_each:
  "distinct (subscribers w) \<Longrightarrow> cb \<in> set (subscribers w) \<Longrightarrow>
   received cb (emit_each raises w entries tr) = received cb tr @ entries"
  by (induction entries arbitrary: tr)
     (auto simp: emit_def received_emit_to count_list_distinct)

text \<open>
  Claim C10. The subscribers form a set: on a watcher whose subscriber list has no
  repetition (every watcher built from \<open>new_watcher\<close> by \<open>subscribe\<close> and the handles
  is one, by \<open>distinct_set_add\<close> and \<open>distinct_set_delete\<close>), subscribing a callback that
  is already subscribed changes nothing, so an emitted entry reaches that callback
  exactly once; the handle returned by \<open>subscribe\<close> removes that callback and no other,
  keeps the rest of the state, and a second call of the handle changes nothing. The
  handle is a total function: it has no error result.
\<close>

theorem subscribe_set_semantics:
  assumes "distinct (subscribers w)"
  shows "(let w1 = fst (subscribe cb w); handle = snd (subscribe cb w)
          in fst (subscribe cb w1) = w1
           \<and> received cb (emit raises w1 entry tr) = received cb tr @ [entry]
           \<and> handle w1 = w1\<lparr>subscribers := filter (\<lambda>x. x \<noteq> cb) (subscribers w1)\<rparr>
           \<and> handle (handle w1) = handle w1
           \<and> received cb (emit raises (handle w1) entry tr) = received cb tr)"
  using assms
  by (auto simp: Let_def subscribe_def unsubscribe_def set_add_def emit_def
      received_emit_to count_list_distinct set_delete_filter)

theorem subscribe_set_semantics_witness:
  "distinct (subscribers new_watcher) \<and>
   (let w1 = fst (subscribe 7 new_watcher); handle = snd (subscribe 7 new_watcher)
    in fst (subscribe 7 w1) = w1
     \<and> received 7 (emit (\<lambda>cb e. True) w1 JNull \<lparr>calls = [], console = []\<rparr>)
         = received 7 \<lparr>calls = [], console = []\<rparr> @ [JNull]
     \<and> handle w1 = w1\<lparr>subscribers := filter (\<lambda>x. x \<noteq> 7) (subscribers w1)\<rparr>
     \<and> handle (handle w1) = handle w1
     \<and> received 7 (emit (\<lambda>cb e. True) (handle w1) JNull \<lparr>calls = [], console = []\<rparr>)
         = received 7 \<lparr>calls = [], console = []\<rparr>)"
proof -
  have d: "distinct (subscribers new_watcher)"
    by (simp add: new_watcher_def)
  from d subscribe_set_semantics [OF d, of 7 "\<lambda>cb e. True" JNull "\<lparr>calls = [], console = []\<rparr>"]
  show ?thesis by simp
qed

lemma step_but_console:
  assumes "but_console L1 = but_console L2"
  shows "map_sum id but_console (step cfg r1 ev L1) = map_sum id but_console (step cfg r2 ev L2)"
proof (cases ev)
  case (Settle k)
  then show ?thesis
    using assms
    by (auto simp: but_console_def on_text_def calls_emit_each split: list.splits sum.splits)
qed (use assms in \<open>auto simp: but_console_def split: prod.splits option.splits\<close>)

lemma run_but_console:
  "but_console L1 = but_console L2 \<Longrightarrow>
   map_sum id but_console (run cfg r1 evs L1) = map_sum id but_console (run cfg r2 evs L2)"
proof (induction evs arbitrary: L1 L2)
  case Nil
  then show ?case by simp
next
  case (Cons ev evs)
  have same: "map_sum id but_console (step cfg r1 ev L1) = map_sum id but_console (step cfg r2 ev L2)"
    by (rule step_but_console [OF Cons.prems])
  show ?case
  proof (cases "step cfg r1 ev L1")
    case (Inl e)
    with same have "step cfg r2 ev L2 = Inl e"
      by (cases "step cfg r2 ev L2") auto
    with Inl show ?thesis by simp
  next
    case (Inr M1)
    with same obtain M2 where M2: "step cfg r2 ev L2 = Inr M2" "but_console M1 = but_console M2"
      by (cases "step cfg r2 ev L2") auto
    from Cons.IH [OF M2(2)] Inr M2(1) show ?thesis by simp
  qed
qed

text \<open>
  Claim C7. Whatever callbacks raise: \<open>emit\<close> calls every subscriber with the entry,
  once and in order, so a callback that raises keeps the entry from no other
  subscriber; each error is caught and written to the console; and the loop goes on
  as if no callback had raised: any run ends in the same result, with the same file
  system, watcher state, reads in flight and calls, as the run in which no callback
  raises.
\<close>

theorem subscriber_errors_are_contained:
  "calls (emit raises w entry tr) = calls tr @ map (\<lambda>cb. (cb, entry)) (subscribers w)
   \<and> console (emit raises w entry tr) =
       console tr @ map (\<lambda>cb. ''Subscriber error:'') (filter (\<lambda>cb. raises cb entry) (subscribers w))
   \<and> map_sum id but_console (run cfg raises evs L) =
       map_sum id but_console (run cfg (\<lambda>cb e. False) evs L)"
  by (simp add: emit_def calls_emit_to console_emit_to run_but_console)

section \<open>Lines: properties\<close>

lemma split_nl_nonempty: "split_nl s \<noteq> []"
  by (induction s) (auto split: list.splits)

lemma split_nl_append: "split_nl (a @ newline # b) = split_nl a @ split_nl b"
  by (induction a) (auto simp: split_nl_nonempty split: list.splits)

lemma split_nl_single: "newline \<notin> set l \<Longrightarrow> split_nl l = [l]"
  by (induction l) auto

lemma blank_not_json:
  assumes "trim l = []"
  shows "JSON_parse l = None"
proof -
  from assms have "\<forall>c\<in>set (dropWhile is_js_space l). is_js_space c"
    by (simp add: trim_def dropWhile_eq_Nil_conv)
  then have "dropWhile is_js_space l = []"
    using hd_dropWhile [of is_js_space l] by (cases "dropWhile is_js_space l") auto
  then have all: "\<forall>c\<in>set l. is_js_space c"
    by (simp add: dropWhile_eq_Nil_conv)
  show ?thesis
  proof (cases "skip_ws l")
    case Nil
    then show ?thesis by (simp add: JSON_parse_def)
  next
    case (Cons c cs)
    then have "c \<in> set l" "\<not> is_json_ws c"
      unfolding skip_ws_def
      by (metis list.set_intros(1) set_dropWhileD, metis hd_dropWhile list.sel(1) list.distinct(1))
    with all have c: "c = CHR 0x0B \<or> c = CHR 0x0C"
      by (auto simp: is_js_space_def is_json_ws_def)
    then have "scan_number (c # cs) = None"
      by (auto simp: scan_number_def scan_int_def is_digit_def)
    with c Cons show ?thesis
      by (auto simp: JSON_parse_def)
  qed
qed

lemma decode_lines_append: "decode_lines (xs @ ys) = decode_lines xs @ decode_lines ys"
  by (induction xs) (auto split: option.splits)

lemma decode_lines_filter:
  "decode_lines (filter (\<lambda>line. trim line \<noteq> []) ls) = decode_lines ls"
  by (induction ls) (auto simp: blank_not_json split: option.splits)

lemma parseLines_decode: "parseLines content = decode_lines (split_nl content)"
  by (simp add: parseLines_def decode_lines_filter)

lemma parseLines_newline: "parseLines (a @ newline # b) = parseLines a @ parseLines b"
  by (simp add: parseLines_decode split_nl_append decode_lines_append)

lemma parseLines_line:
  "newline \<notin> set l \<Longrightarrow> parseLines l = (case JSON_parse l of None \<Rightarrow> [] | Some e \<Rightarrow> [e])"
  by (simp add: parseLines_decode split_nl_single split: option.splits)

lemma parseLines_Nil: "parseLines [] = []"
  by (simp add: parseLines_line JSON_parse_def skip_ws_def)

lemma parse_two: "JSON_parse ''2'' = Some (JNumber ''2'')"
  by code_simp

lemma parse_three: "JSON_parse ''[3]'' = Some (JArray [JNumber ''3''])"
  by code_simp

lemma parse_one: "JSON_parse ''1'' = Some (JNumber ''1'')"
  by code_simp


lemma parseLines_join_lines:
  "\<forall>l\<in>set ls. json_line l \<Longrightarrow> parseLines (join_lines ls) = map (the \<circ> JSON_parse) ls"
proof (induction ls)
  case Nil
  then show ?case by (simp add: parseLines_Nil)
next
  case (Cons l ls)
  then show ?case
    by (auto simp: parseLines_newline parseLines_line json_line_def)
qed

lemma join_lines_append: "join_lines (xs @ ys) = join_lines xs @ join_lines ys"
  by (induction xs) auto

lemma join_lines_concat: "join_lines (concat xss) = concat (map join_lines xss)"
  by (induction xss) (auto simp: join_lines_append)

lemma emit_each_lastSize: "emit_each raises (w\<lparr>lastSize := n\<rparr>) entries tr = emit_each raises w entries tr"
  by (induction entries arbitrary: tr) (auto simp: emit_def)

lemma on_text_lastSize: "on_text raises (w\<lparr>lastSize := n\<rparr>) content tr = on_text raises w content tr"
  by (simp add: on_text_def emit_each_lastSize)

lemma run_append:
  "run cfg raises (xs @ ys) L =
     (case run cfg raises xs L of Inl e \<Rightarrow> Inl e | Inr L' \<Rightarrow> run cfg raises ys L')"
  by (induction xs arbitrary: L) (auto split: sum.splits)

lemma holds_size: "holds fs p c \<Longrightarrow> bun_size fs p = length c"
  by (auto simp: holds_def bun_size_def split: option.splits file_node.splits)

lemma holds_append: "holds fs p c \<Longrightarrow> holds (append_file fs p b) p (c @ b)"
  by (auto simp: holds_def append_file_def split: option.splits file_node.splits)

lemma holds_slice:
  "holds fs p (c @ b) \<Longrightarrow> b \<noteq> [] \<Longrightarrow> slice_text fs p (length c) (length c + length b) = Inr b"
  by (auto simp: holds_def slice_text_def split: option.splits file_node.splits)

lemma tick_growth:
  assumes "interval (watch L)" and "getLogFilePath cfg (watch L) = Some p"
    and "in_flight L = []" and "holds (disk L) p (c @ b)"
    and "lastSize (watch L) = length c" and "b \<noteq> []"
  shows "run cfg raises poll L =
           Inr (L\<lparr>watch := (watch L)\<lparr>lastSize := length c + length b\<rparr>,
                  emitted := on_text raises (watch L) b (emitted L)\<rparr>)"
  using assms holds_size [of "disk L" p "c @ b"] holds_slice [of "disk L" p c b]
  by (simp add: checkForChanges_def getFileSize_def on_text_lastSize Let_def)

lemma tick_idle:
  assumes "getLogFilePath cfg (watch L) = Some p" and "in_flight L = []"
    and "holds (disk L) p c" and "lastSize (watch L) = length c"
  shows "run cfg raises poll L = Inr L"
  using assms holds_size [of "disk L" p c]
  by (simp add: checkForChanges_def getFileSize_def Let_def)

lemma tick_shrink:
  assumes "interval (watch L)" and "getLogFilePath cfg (watch L) = Some p"
    and "holds (disk L) p c" and "length c < lastSize (watch L)"
  shows "step cfg raises Timer L = Inr (L\<lparr>watch := (watch L)\<lparr>lastSize := length c\<rparr>\<rparr>)"
  using assms holds_size [of "disk L" p c]
  by (simp add: checkForChanges_def getFileSize_def Let_def)

lemma on_text_Nil: "on_text raises w [] tr = tr"
  by (simp add: on_text_def parseLines_Nil)

lemma append_then_tick:
  assumes "interval (watch L)" and "getLogFilePath cfg (watch L) = Some p"
    and "in_flight L = []" and "holds (disk L) p c" and "lastSize (watch L) = length c"
  shows "run cfg raises (Append p b # poll) L =
           Inr (L\<lparr>disk := append_file (disk L) p b,
                  watch := (watch L)\<lparr>lastSize := length c + length b\<rparr>,
                  emitted := on_text raises (watch L) b (emitted L)\<rparr>)"
proof (cases "b = []")
  case True
  have "holds (append_file (disk L) p []) p c"
    using holds_append [OF assms(4), of "[]"] by simp
  then have "run cfg raises poll (L\<lparr>disk := append_file (disk L) p []\<rparr>)
               = Inr (L\<lparr>disk := append_file (disk L) p []\<rparr>)"
    using assms by (intro tick_idle [where p = p and c = c]) simp_all
  with True assms(5) show ?thesis
    by (simp add: on_text_Nil)
next
  case False
  have "run cfg raises poll (L\<lparr>disk := append_file (disk L) p b\<rparr>)
          = Inr (L\<lparr>disk := append_file (disk L) p b,
                   watch := (watch L)\<lparr>lastSize := length c + length b\<rparr>,
                   emitted := on_text raises (watch L) b (emitted L)\<rparr>)"
    using assms False holds_append [OF assms(4), of b]
      tick_growth [of "L\<lparr>disk := append_file (disk L) p b\<rparr>" cfg p c b raises]
    by simp
  then show ?thesis by simp
qed

lemma tracking_after_start:
  assumes "\<not> interval w" and "getLogFilePath cfg w = Some p" and "holds fs p c"
  shows "interval (start cfg fs w) \<and> getLogFilePath cfg (start cfg fs w) = Some p
       \<and> lastSize (start cfg fs w) = length c
       \<and> subscribers (start cfg fs w) = subscribers w"
  using assms holds_size [OF assms(3)]
  by (simp add: start_def getFileSize_def getLogFilePath_def)

section \<open>Polling: properties\<close>



lemma emit_each_subscribers:
  "subscribers w1 = subscribers w2 \<Longrightarrow> emit_each raises w1 entries tr = emit_each raises w2 entries tr"
  by (induction entries arbitrary: tr) (auto simp: emit_def)

lemma same_afterI:
  assumes "watch L1 = watch L2" "in_flight L1 = in_flight L2" "emitted L1 = emitted L2"
    and "getLogFilePath cfg (watch L1) = Some p" "n \<le> lastSize (watch L1)"
    and "list_all (\<lambda>r. rpath r = p \<and> n \<le> rstart r) (in_flight L1)"
    and "files (disk L1) p = Some (Regular f1)" "files (disk L2) p = Some (Regular f2)"
    and "n \<le> length f1" "length f2 = length f1" "drop n f1 = drop n f2"
  shows "same_after cfg p n L1 L2"
  unfolding same_after_def live_def using assms by blast

lemma same_after_files:
  assumes "same_after cfg p n L1 L2"
  obtains f1 f2 where "files (disk L1) p = Some (Regular f1)" "files (disk L2) p = Some (Regular f2)"
    "n \<le> length f1" "length f2 = length f1" "drop n f1 = drop n f2"
  using assms unfolding same_after_def by blast

lemma drop_past:
  assumes "drop n f1 = drop n f2" and "n \<le> a"
  shows "drop a f1 = drop a (f2 :: 'a list)"
proof -
  have "drop a f1 = drop (a - n) (drop n f1)" using assms(2) by simp
  also have "\<dots> = drop (a - n) (drop n f2)" by (simp only: assms(1))
  also have "\<dots> = drop a f2" using assms(2) by simp
  finally show ?thesis .
qed

lemma same_after_step:
  assumes "same_after cfg p n L1 L2" and "keeps_history ev"
  shows "\<exists>M1 M2. step cfg raises ev L1 = Inr M1 \<and> step cfg raises ev L2 = Inr M2
           \<and> same_after cfg p n M1 M2"
proof -
  from same_after_files [OF assms(1)] obtain f1 f2 where
    f: "files (disk L1) p = Some (Regular f1)" "files (disk L2) p = Some (Regular f2)"
    "n \<le> length f1" "length f2 = length f1" "drop n f1 = drop n f2"
    by blast
  from assms(1) have
    w: "watch L1 = watch L2" and q: "in_flight L1 = in_flight L2" and e: "emitted L1 = emitted L2"
    and path: "getLogFilePath cfg (watch L1) = Some p" and low: "n \<le> lastSize (watch L1)"
    and reqs: "list_all (\<lambda>r. rpath r = p \<and> n \<le> rstart r) (in_flight L1)"
    unfolding same_after_def live_def by blast+
  show ?thesis
  proof (cases ev)
    case (Append q' bytes)
    let ?M1 = "L1\<lparr>disk := append_file (disk L1) q' bytes\<rparr>"
    let ?M2 = "L2\<lparr>disk := append_file (disk L2) q' bytes\<rparr>"
    have "same_after cfg p n ?M1 ?M2"
    proof (cases "q' = p")
      case True
      show ?thesis
        by (rule same_afterI [where ?f1.0 = "f1 @ bytes" and ?f2.0 = "f2 @ bytes"])
           (use w q e path low reqs f True in \<open>simp_all add: append_file_def\<close>)
    next
      case False
      show ?thesis
        by (rule same_afterI [where ?f1.0 = f1 and ?f2.0 = f2])
           (use w q e path low reqs f False in \<open>simp_all add: append_file_def\<close>)
    qed
    with Append show ?thesis by simp
  next
    case (Rewrite q' bytes)
    with assms(2) show ?thesis by simp
  next
    case Timer
    have size: "getFileSize cfg (disk L1) (watch L1) = length f1"
      "getFileSize cfg (disk L2) (watch L2) = length f1"
      using path w f by (simp_all add: getFileSize_def bun_size_def)
    consider (off) "\<not> interval (watch L1)"
      | (grow) "interval (watch L1)" "lastSize (watch L1) < length f1"
      | (shrink) "interval (watch L1)" "length f1 < lastSize (watch L1)"
      | (idle) "interval (watch L1)" "lastSize (watch L1) = length f1"
      by linarith
    then show ?thesis
    proof cases
      case off
      with Timer w assms(1) show ?thesis by simp
    next
      case grow
      let ?w = "(watch L1)\<lparr>lastSize := length f1\<rparr>"
      let ?r = "\<lparr>rpath = p, rstart = lastSize (watch L1), rend = length f1\<rparr>"
      let ?M1 = "L1\<lparr>watch := ?w, in_flight := in_flight L1 @ [?r]\<rparr>"
      let ?M2 = "L2\<lparr>watch := ?w, in_flight := in_flight L1 @ [?r]\<rparr>"
      have "step cfg raises Timer L1 = Inr ?M1" "step cfg raises Timer L2 = Inr ?M2"
        using grow size w q path by (simp_all add: checkForChanges_def Let_def)
      moreover have "same_after cfg p n ?M1 ?M2"
        by (rule same_afterI [where ?f1.0 = f1 and ?f2.0 = f2])
           (use w q e path low reqs f in \<open>simp_all add: getLogFilePath_def\<close>)
      ultimately show ?thesis using Timer by simp
    next
      case shrink
      let ?w = "(watch L1)\<lparr>lastSize := length f1\<rparr>"
      let ?M1 = "L1\<lparr>watch := ?w\<rparr>"
      let ?M2 = "L2\<lparr>watch := ?w\<rparr>"
      have "step cfg raises Timer L1 = Inr ?M1" "step cfg raises Timer L2 = Inr ?M2"
        using shrink size w q path by (simp_all add: checkForChanges_def Let_def)
      moreover have "same_after cfg p n ?M1 ?M2"
        by (rule same_afterI [where ?f1.0 = f1 and ?f2.0 = f2])
           (use w q e path low reqs f in \<open>simp_all add: getLogFilePath_def\<close>)
      ultimately show ?thesis using Timer by simp
    next
      case idle
      have "step cfg raises Timer L1 = Inr L1" "step cfg raises Timer L2 = Inr L2"
        using idle size w q path by (simp_all add: checkForChanges_def Let_def)
      with Timer assms(1) show ?thesis by simp
    qed
  next
    case (Settle k)
    show ?thesis
    proof (cases "drop k (in_flight L1)")
      case Nil
      with Settle assms(1) q show ?thesis by simp
    next
      case (Cons req rest)
      then have "req \<in> set (in_flight L1)"
        by (metis in_set_dropD list.set_intros(1))
      with reqs have r: "rpath req = p" "n \<le> rstart req"
        by (auto simp: list_all_iff)
      have same: "drop (rstart req) f1 = drop (rstart req) f2"
        by (rule drop_past [OF f(5) r(2)])
      have "set (take k (in_flight L1) @ rest) \<subseteq> set (in_flight L1)"
        using Cons by (metis append_take_drop_id set_append set_subset_Cons sup.mono subset_refl)
      with reqs have kept: "list_all (\<lambda>r. rpath r = p \<and> n \<le> rstart r) (take k (in_flight L1) @ rest)"
        unfolding list_all_iff by blast
      let ?content = "take (rend req - rstart req) (drop (rstart req) f1)"
      let ?M1 = "L1\<lparr>in_flight := take k (in_flight L1) @ rest,
                    emitted := on_text raises (watch L1) ?content (emitted L1)\<rparr>"
      let ?M2 = "L2\<lparr>in_flight := take k (in_flight L1) @ rest,
                    emitted := on_text raises (watch L1) ?content (emitted L1)\<rparr>"
      have "step cfg raises (Settle k) L1 = Inr ?M1"
        using Cons f r by (simp add: slice_text_def)
      moreover have "step cfg raises (Settle k) L2 = Inr ?M2"
        using Cons f r q w e same by (simp add: slice_text_def)
      moreover have "same_after cfg p n ?M1 ?M2"
        by (rule same_afterI [where ?f1.0 = f1 and ?f2.0 = f2])
           (use w q e path low kept f in simp_all)
      ultimately show ?thesis using Settle by simp
    qed
  next
    case (SetSession sid)
    with assms(2) show ?thesis by simp
  qed
qed

lemma same_after_run:
  assumes "same_after cfg p n L1 L2" and "list_all keeps_history evs"
  shows "\<exists>M1 M2. run cfg raises evs L1 = Inr M1 \<and> run cfg raises evs L2 = Inr M2
           \<and> same_after cfg p n M1 M2"
  using assms
proof (induction evs arbitrary: L1 L2)
  case Nil
  then show ?case by simp
next
  case (Cons ev evs)
  from Cons.prems(2) have ev: "keeps_history ev" and evs: "list_all keeps_history evs"
    by simp_all
  from same_after_step [OF Cons.prems(1) ev, of raises] obtain M1 M2 where
    M: "step cfg raises ev L1 = Inr M1" "step cfg raises ev L2 = Inr M2" "same_after cfg p n M1 M2"
    by blast
  from Cons.IH [OF M(3) evs] M(1,2) show ?case by simp
qed


text \<open>
  Claim C5, as the code has it. After \<open>setSession\<close> on a session whose file holds the
  bytes \<open>c\<close>, \<open>lastSize\<close> is the length of \<open>c\<close>, and that content is what
  \<open>getAllEntries\<close> returns, parsed. When no read is in flight at the switch, a poll
  tick with no growth emits nothing and a poll tick after an append \<open>b\<close> emits the
  entries of \<open>b\<close> alone; and however appends, ticks and settlements follow one another
  from then on, in any number and any order, the watcher's state, the reads in flight
  and everything emitted are the same whatever the file held at the switch, \<open>c\<close> or
  any \<open>c'\<close> of the same length: nothing emitted is decoded from the prior content.
\<close>

theorem setSession_skips_history:
  assumes "sid \<noteq> []" and "holds fs (getSessionLogPath cfg sid) c" and "interval w"
  shows "lastSize (setSession cfg fs sid w) = length c
       \<and> getAllEntries cfg fs (setSession cfg fs sid w) = Inr (parseLines c)
       \<and> run cfg raises poll
           \<lparr>disk = fs, watch = setSession cfg fs sid w, in_flight = [], emitted = tr\<rparr> =
           Inr \<lparr>disk = fs, watch = setSession cfg fs sid w, in_flight = [], emitted = tr\<rparr>
       \<and> run cfg raises (Append (getSessionLogPath cfg sid) b # poll)
           \<lparr>disk = fs, watch = setSession cfg fs sid w, in_flight = [], emitted = tr\<rparr> =
           Inr \<lparr>disk = append_file fs (getSessionLogPath cfg sid) b,
                watch = (setSession cfg fs sid w)\<lparr>lastSize := length c + length b\<rparr>,
                in_flight = [],
                emitted = on_text raises w b tr\<rparr>
       \<and> (files fs (getSessionLogPath cfg sid) = Some (Regular c)
            \<and> files fs' (getSessionLogPath cfg sid) = Some (Regular c') \<and> length c' = length c
            \<and> list_all keeps_history evs \<longrightarrow>
          map_sum id live
            (run cfg raises evs
               \<lparr>disk = fs, watch = setSession cfg fs sid w, in_flight = [], emitted = tr\<rparr>) =
          map_sum id live
            (run cfg raises evs
               \<lparr>disk = fs', watch = setSession cfg fs' sid w, in_flight = [], emitted = tr\<rparr>))"
proof -
  let ?p = "getSessionLogPath cfg sid"
  let ?w = "setSession cfg fs sid w"
  let ?L = "\<lparr>disk = fs, watch = ?w, in_flight = [], emitted = tr\<rparr>"
  have path: "getLogFilePath cfg ?w = Some ?p"
    using assms(1) by (simp add: setSession_def getLogFilePath_def Let_def)
  have size: "lastSize ?w = length c"
    using assms(1) holds_size [OF assms(2)]
    by (simp add: setSession_def getFileSize_def getLogFilePath_def Let_def)
  have subs: "on_text raises ?w b tr = on_text raises w b tr"
    unfolding on_text_def by (rule emit_each_subscribers) (simp add: setSession_def Let_def)
  have all: "getAllEntries cfg fs ?w = Inr (parseLines c)"
    using assms(2) path
    by (auto simp: getAllEntries_def holds_def bun_size_def readFileSync_def parseLines_Nil
        split: option.splits file_node.splits)
  have idle: "run cfg raises poll ?L = Inr ?L"
    using path size assms(2) by (intro tick_idle [where p = ?p and c = c]) simp_all
  have live: "run cfg raises (Append ?p b # poll) ?L =
      Inr (?L\<lparr>disk := append_file (disk ?L) ?p b,
               watch := (watch ?L)\<lparr>lastSize := length c + length b\<rparr>,
               emitted := on_text raises (watch ?L) b (emitted ?L)\<rparr>)"
    using path size assms by (intro append_then_tick) (simp_all add: setSession_def Let_def)
  have ever: "map_sum id live (run cfg raises evs ?L) =
      map_sum id live
        (run cfg raises evs \<lparr>disk = fs', watch = setSession cfg fs' sid w, in_flight = [], emitted = tr\<rparr>)"
    if f: "files fs ?p = Some (Regular c)" and f': "files fs' ?p = Some (Regular c')"
      and len: "length c' = length c" and evs: "list_all keeps_history evs"
  proof -
    let ?L' = "\<lparr>disk = fs', watch = setSession cfg fs' sid w, in_flight = [], emitted = tr\<rparr>"
    have w': "setSession cfg fs' sid w = ?w"
      using assms(1) f f' len by (simp add: setSession_def getFileSize_def getLogFilePath_def bun_size_def Let_def)
    have "same_after cfg ?p (length c) ?L ?L'"
      by (rule same_afterI [where ?f1.0 = c and ?f2.0 = c'])
         (use w' path size f f' len in simp_all)
    from same_after_run [OF this evs, of raises] obtain M1 M2 where
      "run cfg raises evs ?L = Inr M1" "run cfg raises evs ?L' = Inr M2" "live M1 = live M2"
      unfolding same_after_def by blast
    then show ?thesis by simp
  qed
  from size all idle live subs ever show ?thesis by simp
qed

theorem setSession_skips_history_witness:
  "''s1'' \<noteq> [] \<and> holds (switched_disk ''[1]'') (getSessionLogPath demo_cfg ''s1'') (join_lines [''[1]''])
   \<and> interval (watch (demo_loop []))
   \<and> files (switched_disk ''[1]'') (getSessionLogPath demo_cfg ''s1'') = Some (Regular (join_lines [''[1]'']))
   \<and> files (switched_disk ''[9]'') (getSessionLogPath demo_cfg ''s1'') = Some (Regular (join_lines [''[9]'']))
   \<and> length (join_lines [''[9]'']) = length (join_lines [''[1]''])
   \<and> list_all keeps_history (Append ''logs/s1.txt'' (join_lines [''2'']) # poll)
   \<and> lastSize (watch (switched_loop ''[1]'')) = 4
   \<and> getAllEntries demo_cfg (switched_disk ''[1]'') (watch (switched_loop ''[1]'')) =
        Inr [JArray [JNumber ''1'']]
   \<and> map_sum id (\<lambda>L. calls (emitted L))
        (run demo_cfg (\<lambda>cb e. False) (Append ''logs/s1.txt'' (join_lines [''2'']) # poll)
           (switched_loop ''[1]'')) = Inr [(1, JNumber ''2''), (2, JNumber ''2'')]
   \<and> map_sum id live
        (run demo_cfg (\<lambda>cb e. False) (Append ''logs/s1.txt'' (join_lines [''2'']) # poll)
           (switched_loop ''[1]'')) =
      map_sum id live
        (run demo_cfg (\<lambda>cb e. False) (Append ''logs/s1.txt'' (join_lines [''2'']) # poll)
           (switched_loop ''[9]''))"
proof -
  let ?p = "getSessionLogPath demo_cfg ''s1''"
  let ?evs = "Append ''logs/s1.txt'' (join_lines [''2'']) # poll"
  have h1: "''s1'' \<noteq> []"
    and h2: "holds (switched_disk ''[1]'') ?p (join_lines [''[1]''])"
    and h3: "interval (watch (demo_loop []))"
    and h4: "files (switched_disk ''[1]'') ?p = Some (Regular (join_lines [''[1]'']))"
    and h5: "files (switched_disk ''[9]'') ?p = Some (Regular (join_lines [''[9]'']))"
    and h6: "length (join_lines [''[9]'']) = length (join_lines [''[1]''])"
    and h7: "list_all keeps_history ?evs"
    by (simp_all add: switched_disk_def demo_loop_def demo_cfg_def holds_def)
  have p: "?p = ''logs/s1.txt''"
    by (simp add: demo_cfg_def)
  note t = setSession_skips_history [OF h1 h2 h3, of "\<lambda>cb e. False" "\<lparr>calls = [], console = []\<rparr>"
      "join_lines [''2'']" "switched_disk ''[9]''" "join_lines [''[9]'']" ?evs]
  have a: "lastSize (watch (switched_loop ''[1]'')) = 4"
    using t [THEN conjunct1] by (simp add: switched_loop_def)
  have one: "parseLines (join_lines [''[1]'']) = [JArray [JNumber ''1'']]"
    by code_simp
  have b: "getAllEntries demo_cfg (switched_disk ''[1]'') (watch (switched_loop ''[1]'')) =
      Inr [JArray [JNumber ''1'']]"
    using t [THEN conjunct2, THEN conjunct1] unfolding one by (simp add: switched_loop_def)
  have two: "on_text (\<lambda>cb e. False) (watch (demo_loop [])) (join_lines [''2'']) \<lparr>calls = [], console = []\<rparr> =
      \<lparr>calls = [(1, JNumber ''2''), (2, JNumber ''2'')], console = []\<rparr>"
    using parseLines_join_lines [of "[''2'']"]
    by (simp add: on_text_def json_line_def parse_two emit_def invoke_def demo_loop_def)
  have c: "map_sum id (\<lambda>L. calls (emitted L))
        (run demo_cfg (\<lambda>cb e. False) ?evs (switched_loop ''[1]'')) =
      Inr [(1, JNumber ''2''), (2, JNumber ''2'')]"
    using t [THEN conjunct2, THEN conjunct2, THEN conjunct2, THEN conjunct1]
    unfolding two p switched_loop_def by simp
  have d: "map_sum id live (run demo_cfg (\<lambda>cb e. False) ?evs (switched_loop ''[1]'')) =
      map_sum id live (run demo_cfg (\<lambda>cb e. False) ?evs (switched_loop ''[9]''))"
    using t [THEN conjunct2, THEN conjunct2, THEN conjunct2, THEN conjunct2] h4 h5 h6 h7
    unfolding switched_loop_def by blast
  from h1 h2 h3 h4 h5 h6 h7 a b c d show ?thesis
    by (intro conjI)
qed

text \<open>
  Claim C5 as stated fails, since \<open>setSession\<close> cancels no read. The watcher is on
  \<open>s1\<close>; the line \<open>8\<close> is appended to its log and a tick issues the read of it. Before
  the read settles the session is set to \<open>s2\<close> and back to \<open>s1\<close>. At that last
  switch the log of \<open>s1\<close> holds the line already and \<open>lastSize\<close> is at its end, 2; the
  read then settles, and the entry \<open>8\<close>, decoded from content the file held at the
  switch, is emitted to both subscribers.
\<close>

theorem setSession_cancels_no_read_counterexample:
  "map_sum id (\<lambda>L. (currentSessionId (watch L), lastSize (watch L),
                      readFileSync (disk L) ''logs/s1.txt'', in_flight L, calls (emitted L)))
     (run demo_cfg (\<lambda>cb e. False)
        [Append ''logs/s1.txt'' (join_lines [''8'']), Timer, SetSession ''s2'', SetSession ''s1'']
        (demo_loop []))
     = Inr (Some ''s1'', 2, Inr (join_lines [''8'']),
            [\<lparr>rpath = ''logs/s1.txt'', rstart = 0, rend = 2\<rparr>], [])
   \<and> map_sum id (\<lambda>L. (currentSessionId (watch L), in_flight L, calls (emitted L)))
     (run demo_cfg (\<lambda>cb e. False)
        [Append ''logs/s1.txt'' (join_lines [''8'']), Timer, SetSession ''s2'', SetSession ''s1'', Settle 0]
        (demo_loop []))
     = Inr (Some ''s1'', [], [(1, JNumber ''8''), (2, JNumber ''8'')])"
  by code_simp




lemma whole_is_json: \<open>JSON_parse ''{"a":1}'' = Some (JObject [(''a'', JNumber ''1'')])\<close>
  by code_simp

lemma demo_loop_tracking:
  "interval (watch (demo_loop c))" "getLogFilePath demo_cfg (watch (demo_loop c)) = Some ''logs/s1.txt''"
  "in_flight (demo_loop c) = []" "holds (disk (demo_loop c)) ''logs/s1.txt'' c"
  "lastSize (watch (demo_loop c)) = length c" "distinct (subscribers (watch (demo_loop c)))"
  by (simp_all add: demo_loop_def demo_cfg_def getLogFilePath_def holds_def)



lemma run_appends:
  assumes "holds (disk L) p c"
  shows "run cfg raises (map (\<lambda>ls. Append p (join_lines ls)) appends) L =
           Inr (L\<lparr>disk := fold (\<lambda>ls fs. append_file fs p (join_lines ls)) appends (disk L)\<rparr>)
       \<and> holds (fold (\<lambda>ls fs. append_file fs p (join_lines ls)) appends (disk L)) p
           (c @ join_lines (concat appends))"
  using assms
proof (induction appends arbitrary: L c)
  case Nil
  then show ?case by simp
next
  case (Cons ls appends)
  let ?L1 = "L\<lparr>disk := append_file (disk L) p (join_lines ls)\<rparr>"
  have "holds (disk ?L1) p (c @ join_lines ls)"
    using holds_append [OF Cons.prems] by simp
  from Cons.IH [OF this] show ?case
    by (simp add: join_lines_append)
qed

lemma emit_each_append:
  "emit_each raises w (xs @ ys) tr = emit_each raises w ys (emit_each raises w xs tr)"
  by (induction xs arbitrary: tr) auto

lemma one_round:
  assumes "interval (watch L)" and "getLogFilePath cfg (watch L) = Some p"
    and "in_flight L = []" and "holds (disk L) p c" and "lastSize (watch L) = length c"
    and "\<forall>ls\<in>set appends. \<forall>l\<in>set ls. json_line l"
  shows "\<exists>L1. run cfg raises (map (\<lambda>ls. Append p (join_lines ls)) appends @ poll) L = Inr L1
           \<and> interval (watch L1) \<and> getLogFilePath cfg (watch L1) = Some p
           \<and> in_flight L1 = []
           \<and> holds (disk L1) p (c @ join_lines (concat appends))
           \<and> lastSize (watch L1) = length (c @ join_lines (concat appends))
           \<and> subscribers (watch L1) = subscribers (watch L)
           \<and> emitted L1 =
               emit_each raises (watch L) (map (the \<circ> JSON_parse) (concat appends)) (emitted L)"
proof -
  let ?b = "join_lines (concat appends)"
  let ?fs = "fold (\<lambda>ls fs. append_file fs p (join_lines ls)) appends (disk L)"
  let ?L0 = "L\<lparr>disk := ?fs\<rparr>"
  from run_appends [OF assms(4), of cfg raises appends]
  have ap: "run cfg raises (map (\<lambda>ls. Append p (join_lines ls)) appends) L = Inr ?L0"
    and h: "holds ?fs p (c @ ?b)"
    by simp_all
  have parsed: "parseLines ?b = map (the \<circ> JSON_parse) (concat appends)"
    using assms(6) by (intro parseLines_join_lines) auto
  show ?thesis
  proof (cases "?b = []")
    case True
    have idle: "run cfg raises poll ?L0 = Inr ?L0"
      using assms h True by (intro tick_idle [where p = p and c = c]) simp_all
    have nil: "concat appends = []"
      using True by (cases "concat appends") auto
    have none: "map (the \<circ> JSON_parse) (concat appends) = []"
      unfolding nil by simp
    have ran: "run cfg raises (map (\<lambda>ls. Append p (join_lines ls)) appends @ poll) L = Inr ?L0"
      using ap idle by (simp add: run_append)
    have h0: "holds ?fs p c"
      using h True by simp
    show ?thesis
      using assms(1,2,3,5) by (intro exI [of _ ?L0]) (simp add: ran h0 none True)
  next
    case False
    have "run cfg raises poll ?L0 =
        Inr (?L0\<lparr>watch := (watch ?L0)\<lparr>lastSize := length c + length ?b\<rparr>,
                emitted := on_text raises (watch ?L0) ?b (emitted ?L0)\<rparr>)"
      using assms h False by (intro tick_growth [where p = p]) simp_all
    then have "run cfg raises (map (\<lambda>ls. Append p (join_lines ls)) appends @ poll) L =
        Inr (?L0\<lparr>watch := (watch ?L0)\<lparr>lastSize := length c + length ?b\<rparr>,
                emitted := on_text raises (watch ?L0) ?b (emitted ?L0)\<rparr>)"
      using ap by (simp add: run_append)
    moreover have "holds (disk ?L0) p (c @ join_lines (concat appends))"
      using h by simp
    ultimately show ?thesis
      using assms(1,2,3,5) parsed
      by (intro exI [of _ "?L0\<lparr>watch := (watch ?L0)\<lparr>lastSize := length c + length ?b\<rparr>,
                emitted := on_text raises (watch ?L0) ?b (emitted ?L0)\<rparr>"])
         (simp add: on_text_def getLogFilePath_def)
  qed
qed

text \<open>
  When the read of every tick settles before anything else happens, nothing is left
  to wait for: \<open>ticks\<close> lists, for each poll tick, the appends made since the tick
  before, each a batch of whole lines, and at the end of the schedule every subscriber
  has been called with the parsed lines, once each, in the order they were appended.
\<close>

theorem growth_is_delivered_once_in_order:
  assumes "interval (watch L)" and "getLogFilePath cfg (watch L) = Some p"
    and "in_flight L = []" and "holds (disk L) p c" and "lastSize (watch L) = length c"
    and "distinct (subscribers (watch L))"
    and "\<forall>appends\<in>set ticks. \<forall>ls\<in>set appends. \<forall>l\<in>set ls. json_line l"
  shows "\<exists>L'. run cfg raises (schedule p ticks) L = Inr L'
           \<and> in_flight L' = []
           \<and> lastSize (watch L') = length c + length (join_lines (concat (concat ticks)))
           \<and> (\<forall>cb\<in>set (subscribers (watch L)).
                 received cb (emitted L') =
                   received cb (emitted L) @ map (the \<circ> JSON_parse) (concat (concat ticks)))"
  using assms
proof (induction ticks arbitrary: L c)
  case Nil
  then show ?case by simp
next
  case (Cons appends ticks)
  have lines: "\<forall>ls\<in>set appends. \<forall>l\<in>set ls. json_line l"
    using Cons.prems(7) by simp
  from one_round [OF Cons.prems(1-5) lines, of raises]
  obtain L1 where L1:
    "run cfg raises (map (\<lambda>ls. Append p (join_lines ls)) appends @ poll) L = Inr L1"
    "interval (watch L1)" "getLogFilePath cfg (watch L1) = Some p" "in_flight L1 = []"
    "holds (disk L1) p (c @ join_lines (concat appends))"
    "lastSize (watch L1) = length (c @ join_lines (concat appends))"
    "subscribers (watch L1) = subscribers (watch L)"
    "emitted L1 = emit_each raises (watch L) (map (the \<circ> JSON_parse) (concat appends)) (emitted L)"
    by blast
  have "distinct (subscribers (watch L1))"
    using L1(7) Cons.prems(6) by simp
  moreover have "\<forall>appends\<in>set ticks. \<forall>ls\<in>set appends. \<forall>l\<in>set ls. json_line l"
    using Cons.prems(7) by simp
  ultimately obtain L' where L':
    "run cfg raises (schedule p ticks) L1 = Inr L'" "in_flight L' = []"
    "lastSize (watch L') =
       length (c @ join_lines (concat appends)) + length (join_lines (concat (concat ticks)))"
    "\<forall>cb\<in>set (subscribers (watch L1)).
        received cb (emitted L') =
          received cb (emitted L1) @ map (the \<circ> JSON_parse) (concat (concat ticks))"
    using Cons.IH [OF L1(2-6)] by blast
  have "run cfg raises (schedule p (appends # ticks)) L = Inr L'"
    using L1(1) L'(1)
      run_append [of cfg raises "map (\<lambda>ls. Append p (join_lines ls)) appends @ poll"
        "schedule p ticks" L]
    by simp
  moreover have "\<forall>cb\<in>set (subscribers (watch L)).
      received cb (emitted L') =
        received cb (emitted L) @ map (the \<circ> JSON_parse) (concat (concat (appends # ticks)))"
    using L'(4) L1(7,8) Cons.prems(6) by (simp add: received_emit_each)
  ultimately show ?case
    using L'(2,3) by (simp add: join_lines_append)
qed

theorem growth_is_delivered_once_in_order_witness:
  \<open>json_line ''{"a":1}'' \<and> json_line ''2'' \<and> json_line ''[3]''
   \<and> (\<exists>L'. run demo_cfg (\<lambda>cb e. cb = 1)
              (schedule ''logs/s1.txt'' [[[''{"a":1}''], [''2'']], [], [[''[3]'']]])
              (demo_loop ''{"old":'') = Inr L'
         \<and> lastSize (watch L') = 21
         \<and> received 1 (emitted L') = [JObject [(''a'', JNumber ''1'')], JNumber ''2'', JArray [JNumber ''3'']]
         \<and> received 2 (emitted L') = [JObject [(''a'', JNumber ''1'')], JNumber ''2'', JArray [JNumber ''3'']])\<close>
proof -
  have l: \<open>json_line ''{"a":1}''\<close> "json_line ''2''" "json_line ''[3]''"
    by (simp_all add: json_line_def whole_is_json parse_two parse_three)
  then have all: \<open>\<forall>appends\<in>set [[[''{"a":1}''], [''2'']], [], [[''[3]'']]].
      \<forall>ls\<in>set appends. \<forall>l\<in>set ls. json_line l\<close>
    by simp
  from growth_is_delivered_once_in_order
    [OF demo_loop_tracking(1-6) [of \<open>''{"old":''\<close>] all, of "\<lambda>cb e. cb = 1"]
  obtain L' where \<open>run demo_cfg (\<lambda>cb e. cb = 1)
        (schedule ''logs/s1.txt'' [[[''{"a":1}''], [''2'']], [], [[''[3]'']]])
        (demo_loop ''{"old":'') = Inr L'\<close>
    \<open>lastSize (watch L') = length ''{"old":'' +
        length (join_lines (concat (concat [[[''{"a":1}''], [''2'']], [], [[''[3]'']]])))\<close>
    \<open>\<forall>cb\<in>set (subscribers (watch (demo_loop ''{"old":''))).
        received cb (emitted L') = received cb (emitted (demo_loop ''{"old":'')) @
          map (the \<circ> JSON_parse) (concat (concat [[[''{"a":1}''], [''2'']], [], [[''[3]'']]]))\<close>
    by blast
  then have \<open>run demo_cfg (\<lambda>cb e. cb = 1)
        (schedule ''logs/s1.txt'' [[[''{"a":1}''], [''2'']], [], [[''[3]'']]])
        (demo_loop ''{"old":'') = Inr L'
      \<and> lastSize (watch L') = 21
      \<and> received 1 (emitted L') = [JObject [(''a'', JNumber ''1'')], JNumber ''2'', JArray [JNumber ''3'']]
      \<and> received 2 (emitted L') = [JObject [(''a'', JNumber ''1'')], JNumber ''2'', JArray [JNumber ''3'']]\<close>
    by (simp add: demo_loop_def received_def whole_is_json parse_two parse_three)
  with l show ?thesis by blast
qed




section \<open>Session index: properties\<close>

lemma place_mset: "place cmp v placed = Inr r \<Longrightarrow> mset r = add_mset v (mset placed)"
proof (induction placed arbitrary: r)
  case Nil
  then show ?case by auto
next
  case (Cons t ts)
  show ?case
  proof (cases "cmp v t")
    case (Inl e)
    with Cons.prems show ?thesis by simp
  next
    case (Inr n)
    show ?thesis
    proof (cases "n < 0")
      case True
      with Inr Cons.prems obtain r' where r': "place cmp v ts = Inr r'" "r = t # r'"
        by (cases "place cmp v ts") auto
      from Cons.IH [OF r'(1)] r'(2) show ?thesis by simp
    next
      case False
      with Inr Cons.prems show ?thesis by auto
    qed
  qed
qed

lemma sort_from_mset: "sort_from cmp xs placed = Inr ys \<Longrightarrow> mset ys = mset xs + mset placed"
proof (induction xs arbitrary: placed)
  case Nil
  then show ?case by auto
next
  case (Cons x xs)
  from Cons.prems obtain placed' where p: "place cmp x placed = Inr placed'"
    "sort_from cmp xs placed' = Inr ys"
    by (cases "place cmp x placed") auto
  from Cons.IH [OF p(2)] place_mset [OF p(1)] show ?case by simp
qed

lemma sort_by_mset: "sort_by cmp xs = Inr ys \<Longrightarrow> mset ys = mset xs"
  using sort_from_mset [of cmp xs "[]" ys] by (simp add: sort_by_def)


lemma place_set: "place cmp v placed = Inr r \<Longrightarrow> set r = insert v (set placed)"
  using place_mset [of cmp v placed r] by (metis set_mset_add_mset_insert set_mset_mset)

text \<open>
  Where the comparison function does not raise and is a consistent order, \<open>c\<close>, the
  elements placed stay in order, last first, and so the result is in order.
\<close>

lemma place_sorted:
  assumes "place cmp v placed = Inr r"
    and "\<forall>t\<in>set placed. cmp v t = Inr (c v t)"
    and "\<forall>t\<in>set placed. 0 \<le> c v t \<longrightarrow> c t v \<le> 0"
    and "\<forall>t\<in>set placed. \<forall>e\<in>set placed. c e t \<le> 0 \<and> c t v \<le> 0 \<longrightarrow> c e v \<le> 0"
    and "sorted_wrt (\<lambda>x y. c y x \<le> 0) placed"
  shows "sorted_wrt (\<lambda>x y. c y x \<le> 0) r"
  using assms
proof (induction placed arbitrary: r)
  case Nil
  from Nil.prems(1) show ?case by auto
next
  case (Cons t ts)
  have cmp: "cmp v t = Inr (c v t)"
    using Cons.prems(2) by simp
  have sorted: "sorted_wrt (\<lambda>x y. c y x \<le> 0) ts" and below: "\<forall>e\<in>set ts. c e t \<le> 0"
    using Cons.prems(5) by simp_all
  show ?case
  proof (cases "c v t < 0")
    case True
    from Cons.prems(1) have "(case place cmp v ts of Inl e \<Rightarrow> Inl e | Inr r \<Rightarrow> Inr (t # r)) = Inr r"
      by (simp add: cmp True)
    then obtain r' where r': "place cmp v ts = Inr r'" "r = t # r'"
      by (cases "place cmp v ts") auto
    have "sorted_wrt (\<lambda>x y. c y x \<le> 0) r'"
    proof (rule Cons.IH [OF r'(1)])
      show "\<forall>t\<in>set ts. cmp v t = Inr (c v t)"
        using Cons.prems(2) by (meson list.set_intros(2))
      show "\<forall>t\<in>set ts. 0 \<le> c v t \<longrightarrow> c t v \<le> 0"
        using Cons.prems(3) by (meson list.set_intros(2))
      show "\<forall>t\<in>set ts. \<forall>e\<in>set ts. c e t \<le> 0 \<and> c t v \<le> 0 \<longrightarrow> c e v \<le> 0"
        using Cons.prems(4) by (meson list.set_intros(2))
      show "sorted_wrt (\<lambda>x y. c y x \<le> 0) ts"
        by (rule sorted)
    qed
    moreover have "\<forall>e\<in>set r'. c e t \<le> 0"
    proof
      fix e
      assume "e \<in> set r'"
      then have "e = v \<or> e \<in> set ts"
        unfolding place_set [OF r'(1)] by simp
      with True below show "c e t \<le> 0"
        by auto
    qed
    ultimately show ?thesis
      unfolding r'(2) by simp
  next
    case False
    from Cons.prems(1) have r: "r = v # t # ts"
      by (simp add: cmp False)
    have tv: "c t v \<le> 0"
      using False Cons.prems(3) by (meson list.set_intros(1) not_le_imp_less order.strict_implies_order linorder_not_less)
    have "\<forall>e\<in>set ts. c e v \<le> 0"
    proof
      fix e
      assume e: "e \<in> set ts"
      with below have "c e t \<le> 0" by blast
      with tv e Cons.prems(4) show "c e v \<le> 0"
        by (meson list.set_intros)
    qed
    with tv below sorted show ?thesis
      unfolding r by simp
  qed
qed


lemma sort_from_sorted:
  assumes "sort_from cmp xs placed = Inr ys"
    and "\<forall>x\<in>set xs \<union> set placed. \<forall>y\<in>set xs \<union> set placed. cmp x y = Inr (c x y)"
    and "\<forall>x\<in>set xs \<union> set placed. \<forall>y\<in>set xs \<union> set placed. 0 \<le> c x y \<longrightarrow> c y x \<le> 0"
    and "\<forall>x\<in>set xs \<union> set placed. \<forall>y\<in>set xs \<union> set placed. \<forall>z\<in>set xs \<union> set placed.
           c x y \<le> 0 \<and> c y z \<le> 0 \<longrightarrow> c x z \<le> 0"
    and "sorted_wrt (\<lambda>x y. c y x \<le> 0) placed"
  shows "sorted_wrt (\<lambda>a b. c a b \<le> 0) ys"
  using assms
proof (induction xs arbitrary: placed)
  case Nil
  from Nil.prems(1) have "ys = rev placed" by simp
  with Nil.prems(5) show ?case
    by (simp add: sorted_wrt_rev)
next
  case (Cons x xs)
  from Cons.prems(1) obtain placed' where p: "place cmp x placed = Inr placed'"
    "sort_from cmp xs placed' = Inr ys"
    by (cases "place cmp x placed") auto
  have same: "set xs \<union> set placed' = set (x # xs) \<union> set placed"
    unfolding place_set [OF p(1)] by auto
  have x: "x \<in> set (x # xs) \<union> set placed"
    by simp
  have sub: "set placed \<subseteq> set (x # xs) \<union> set placed"
    by blast
  have "sorted_wrt (\<lambda>x y. c y x \<le> 0) placed'"
  proof (rule place_sorted [OF p(1)])
    show "\<forall>t\<in>set placed. cmp x t = Inr (c x t)"
      using Cons.prems(2) x sub by blast
    show "\<forall>t\<in>set placed. 0 \<le> c x t \<longrightarrow> c t x \<le> 0"
      using Cons.prems(3) x sub by blast
    show "\<forall>t\<in>set placed. \<forall>e\<in>set placed. c e t \<le> 0 \<and> c t x \<le> 0 \<longrightarrow> c e x \<le> 0"
      using Cons.prems(4) x sub by blast
    show "sorted_wrt (\<lambda>x y. c y x \<le> 0) placed"
      by (rule Cons.prems(5))
  qed
  with Cons.prems(2,3,4) [folded same] show ?case
    by (rule Cons.IH [OF p(2)])
qed

lemma session_info_path:
  "session_info cfg fs filename = Inr info \<Longrightarrow>
   file_path info = path_join (LOGS_DIR cfg) filename \<and> session_id info = replace filename ''.txt'' []"
  by (auto simp: session_info_def Let_def split: sum.splits prod.splits)

lemma map_all_paths:
  "map_all (session_info cfg fs) names = Inr infos \<Longrightarrow>
   map file_path infos = map (path_join (LOGS_DIR cfg)) names"
proof (induction names arbitrary: infos)
  case Nil
  then show ?case by simp
next
  case (Cons n names)
  then show ?case
    by (auto split: sum.splits dest: session_info_path)
qed

lemma listSessions_unsorted:
  assumes "listSessions coll cfg fs = Inr infos" and "dirs fs (LOGS_DIR cfg) = Some names"
  obtains unsorted where
    "map_all (session_info cfg fs) (filter is_log_name names) = Inr unsorted"
    "sort_by (compare_sessions coll) unsorted = Inr infos"
  using assms
  by (auto simp: listSessions_def Let_def existsSync_def readdirSync_def split: sum.splits)

lemma sorted_by_collation:
  assumes "sort_by (compare_sessions coll) unsorted = Inr infos"
    and "map last_entry infos = map JString ts" and "consistent_on coll ts"
  shows "sorted_wrt (\<lambda>s t. coll t (JString s) \<le> 0) ts"
proof -
  let ?c = "\<lambda>a b :: SessionInfo. coll (stamp_of (last_entry b)) (JString (stamp_of (last_entry a)))"
  have same: "set unsorted = set infos"
    using sort_by_mset [OF assms(1)] by (metis set_mset_mset)
  have str: "last_entry i = JString (stamp_of (last_entry i))"
    and mem: "stamp_of (last_entry i) \<in> set ts"
    if "i \<in> set unsorted" for i
  proof -
    from that have "last_entry i \<in> set (map JString ts)"
      unfolding assms(2) [symmetric] same by simp
    then show "last_entry i = JString (stamp_of (last_entry i))" "stamp_of (last_entry i) \<in> set ts"
      by (auto simp: stamp_of_def)
  qed
  have ts: "ts = map (\<lambda>i. stamp_of (last_entry i)) infos"
  proof -
    have "map stamp_of (map last_entry infos) = map stamp_of (map JString ts)"
      by (simp only: assms(2))
    then show ?thesis
      by (simp add: stamp_of_def comp_def)
  qed
  have flip: "coll t (JString s) \<le> 0"
    if "s \<in> set ts" "t \<in> set ts" "0 \<le> coll s (JString t)" for s t
    using assms(3) that unfolding consistent_on_def list_all_iff by blast
  have trans: "coll s (JString u) \<le> 0"
    if "s \<in> set ts" "t \<in> set ts" "u \<in> set ts" "coll s (JString t) \<le> 0" "coll t (JString u) \<le> 0"
    for s t u
    using assms(3) that unfolding consistent_on_def list_all_iff by blast
  have "sorted_wrt (\<lambda>a b. ?c a b \<le> 0) infos"
  proof (rule sort_from_sorted [where cmp = "compare_sessions coll" and xs = unsorted and placed = "[]"])
    show "sort_from (compare_sessions coll) unsorted [] = Inr infos"
      using assms(1) by (simp add: sort_by_def)
    show "\<forall>x\<in>set unsorted \<union> set []. \<forall>y\<in>set unsorted \<union> set []. compare_sessions coll x y = Inr (?c x y)"
    proof (intro ballI)
      fix x y
      assume "x \<in> set unsorted \<union> set []" "y \<in> set unsorted \<union> set []"
      then have y: "last_entry y = JString (stamp_of (last_entry y))"
        and x: "last_entry x = JString (stamp_of (last_entry x))"
        using str by simp_all
      have "compare_sessions coll x y = Inr (coll (stamp_of (last_entry y)) (last_entry x))"
        unfolding compare_sessions_def by (subst y) simp
      also have "\<dots> = Inr (?c x y)"
        using x by simp
      finally show "compare_sessions coll x y = Inr (?c x y)" .
    qed
    show "\<forall>x\<in>set unsorted \<union> set []. \<forall>y\<in>set unsorted \<union> set []. 0 \<le> ?c x y \<longrightarrow> ?c y x \<le> 0"
    proof (intro ballI impI)
      fix x y
      assume "x \<in> set unsorted \<union> set []" "y \<in> set unsorted \<union> set []" "0 \<le> ?c x y"
      then show "?c y x \<le> 0"
        using flip [of "stamp_of (last_entry y)" "stamp_of (last_entry x)"] mem by simp
    qed
    show "\<forall>x\<in>set unsorted \<union> set []. \<forall>y\<in>set unsorted \<union> set []. \<forall>z\<in>set unsorted \<union> set [].
            ?c x y \<le> 0 \<and> ?c y z \<le> 0 \<longrightarrow> ?c x z \<le> 0"
    proof (intro ballI impI)
      fix x y z
      assume "x \<in> set unsorted \<union> set []" "y \<in> set unsorted \<union> set []" "z \<in> set unsorted \<union> set []"
        "?c x y \<le> 0 \<and> ?c y z \<le> 0"
      then show "?c x z \<le> 0"
        using trans [of "stamp_of (last_entry z)" "stamp_of (last_entry y)" "stamp_of (last_entry x)"] mem
        by simp
    qed
    show "sorted_wrt (\<lambda>x y. ?c y x \<le> 0) []"
      by simp
  qed
  then show ?thesis
    unfolding ts by (simp add: sorted_wrt_map)
qed

lemma three_sessions_listing:
  "map_sum id (map last_entry) (listSessions iso_collation demo_cfg three_sessions) =
     Inr [JString ''2024-01-02T09:00:00Z'', JString ''2024-01-01T15:00:00Z'',
          JString ''2024-01-01T10:00:00Z'']"
  by code_simp


lemma three_sessions_ids:
  "map_sum id (map session_id) (listSessions iso_collation demo_cfg three_sessions) =
     Inr [''s2'', ''s3'', ''s1'']"
  by code_simp

lemma three_stamps_consistent:
  "consistent_on iso_collation
     [''2024-01-02T09:00:00Z'', ''2024-01-01T15:00:00Z'', ''2024-01-01T10:00:00Z'']"
  by code_simp

text \<open>
  Claim C8, as the code has it. When \<open>listSessions\<close> returns, it returns one
  \<open>SessionInfo\<close> for each name in the log directory that ends in \<open>.txt\<close>; and when
  every \<open>last_entry\<close> is a string, the strings \<open>ts\<close>, on which \<open>localeCompare\<close> is a
  consistent order, as a collation is, the list is in descending order of \<open>last_entry\<close>
  by \<open>localeCompare\<close>: no session comes before one whose \<open>last_entry\<close> collates after
  its own. The three sessions whose last entries are stamped 10:00 on 1 January,
  09:00 on 2 January and 15:00 on 1 January, which differ in digits only, come back
  as 2 January 09:00, 1 January 15:00, 1 January 10:00.
\<close>

theorem listSessions_most_recent_first:
  assumes "listSessions coll cfg fs = Inr infos" and "dirs fs (LOGS_DIR cfg) = Some names"
    and "map last_entry infos = map JString ts" and "consistent_on coll ts"
  shows "sorted_wrt (\<lambda>s t. coll t (JString s) \<le> 0) ts
       \<and> mset (map file_path infos) =
           mset (map (path_join (LOGS_DIR cfg)) (filter is_log_name names))
       \<and> map_sum id (map last_entry) (listSessions iso_collation demo_cfg three_sessions) =
           Inr [JString ''2024-01-02T09:00:00Z'', JString ''2024-01-01T15:00:00Z'',
                JString ''2024-01-01T10:00:00Z'']"
proof -
  from listSessions_unsorted [OF assms(1,2)] obtain unsorted where
    u: "map_all (session_info cfg fs) (filter is_log_name names) = Inr unsorted"
    and i: "sort_by (compare_sessions coll) unsorted = Inr infos"
    by blast
  have "mset (map file_path infos) = mset (map file_path unsorted)"
    using sort_by_mset [OF i] by (metis mset_map)
  then show ?thesis
    using sorted_by_collation [OF i assms(3,4)] map_all_paths [OF u] three_sessions_listing
    by simp
qed

theorem listSessions_most_recent_first_witness:
  "dirs three_sessions (LOGS_DIR demo_cfg) = Some [''s1.txt'', ''s2.txt'', ''.gitkeep'', ''s3.txt'']
   \<and> consistent_on iso_collation
        [''2024-01-02T09:00:00Z'', ''2024-01-01T15:00:00Z'', ''2024-01-01T10:00:00Z'']
   \<and> (\<exists>infos. listSessions iso_collation demo_cfg three_sessions = Inr infos
         \<and> map last_entry infos =
             map JString [''2024-01-02T09:00:00Z'', ''2024-01-01T15:00:00Z'', ''2024-01-01T10:00:00Z'']
         \<and> map session_id infos = [''s2'', ''s3'', ''s1'']
         \<and> mset (map file_path infos) =
             mset (map (path_join (LOGS_DIR demo_cfg))
                    (filter is_log_name [''s1.txt'', ''s2.txt'', ''.gitkeep'', ''s3.txt''])))
   \<and> sorted_wrt (\<lambda>s t. iso_collation t (JString s) \<le> 0)
        [''2024-01-02T09:00:00Z'', ''2024-01-01T15:00:00Z'', ''2024-01-01T10:00:00Z'']"
proof -
  let ?ts = "[''2024-01-02T09:00:00Z'', ''2024-01-01T15:00:00Z'', ''2024-01-01T10:00:00Z'']"
  have d: "dirs three_sessions (LOGS_DIR demo_cfg) = Some [''s1.txt'', ''s2.txt'', ''.gitkeep'', ''s3.txt'']"
    by (simp add: three_sessions_def demo_cfg_def)
  from three_sessions_listing three_sessions_ids
  obtain infos where l: "listSessions iso_collation demo_cfg three_sessions = Inr infos"
    and e: "map last_entry infos = map JString ?ts"
    and s: "map session_id infos = [''s2'', ''s3'', ''s1'']"
    by (cases "listSessions iso_collation demo_cfg three_sessions") auto
  note c = three_stamps_consistent
  note t = listSessions_most_recent_first [OF l d e c]
  show ?thesis
  proof (intro conjI exI)
    show "listSessions iso_collation demo_cfg three_sessions = Inr infos" by (rule l)
    show "map last_entry infos = map JString ?ts" by (rule e)
    show "consistent_on iso_collation ?ts" by (rule c)
    show "map session_id infos = [''s2'', ''s3'', ''s1'']" by (rule s)
    show "sorted_wrt (\<lambda>s t. iso_collation t (JString s) \<le> 0) ?ts"
      by (rule t [THEN conjunct1])
    show "mset (map file_path infos) =
            mset (map (path_join (LOGS_DIR demo_cfg))
                   (filter is_log_name [''s1.txt'', ''s2.txt'', ''.gitkeep'', ''s3.txt'']))"
      by (rule t [THEN conjunct2, THEN conjunct1])
    show "dirs three_sessions (LOGS_DIR demo_cfg) = Some [''s1.txt'', ''s2.txt'', ''.gitkeep'', ''s3.txt'']"
      by (rule d)
  qed
qed

text \<open>
  Claim C8 as stated fails: the order of \<open>localeCompare\<close> is not the lexicographic
  one. Two sessions end at the same local time, \<open>west\<close> with the offset \<open>-01:00\<close> and
  \<open>east\<close> with \<open>+01:00\<close>, and the directory lists \<open>west\<close> first. The collation puts the
  hyphen before the plus sign, so \<open>listSessions\<close> moves \<open>east\<close> to the front; character
  by character the plus sign comes before the hyphen, so the \<open>last_entry\<close> returned
  first is the smaller of the two in lexicographic order: the list is in ascending
  lexicographic order, not descending.
\<close>

theorem collation_is_not_lexicographic_counterexample:
  "map_sum id (map (\<lambda>i. (session_id i, last_entry i)))
     (listSessions iso_collation demo_cfg offset_sessions) =
     Inr [(''east'', JString ''2024-01-01T10:00:00+01:00''),
          (''west'', JString ''2024-01-01T10:00:00-01:00'')]
   \<and> compare_chars ''2024-01-01T10:00:00+01:00'' ''2024-01-01T10:00:00-01:00'' = - 1"
  by code_simp

text \<open>
  Claim C6, as the code has it. \<open>getAllEntries\<close> has no error result at all:
  whatever its \<open>try\<close> block raises, it returns an array, and the empty one when no
  session is selected and when the session's file does not exist. \<open>listSessions\<close>
  returns the empty array when the log directory does not exist, and when it exists
  and is empty.
\<close>

theorem snapshot_and_index_return_empty:
  "(\<exists>entries. getAllEntries cfg fs w = Inr entries)
   \<and> (currentSessionId w = None \<longrightarrow> getAllEntries cfg fs w = Inr [])
   \<and> (getLogFilePath cfg w = Some p \<and> files fs p = None \<longrightarrow> getAllEntries cfg fs w = Inr [])
   \<and> (\<not> existsSync fs (LOGS_DIR cfg) \<longrightarrow> listSessions coll cfg fs = Inr [])
   \<and> (dirs fs (LOGS_DIR cfg) = Some [] \<longrightarrow> listSessions coll cfg fs = Inr [])"
  by (auto simp: getAllEntries_def getLogFilePath_def bun_size_def listSessions_def
      existsSync_def readdirSync_def sort_by_def Let_def split: option.splits sum.splits)

theorem snapshot_and_index_return_empty_witness:
  "currentSessionId new_watcher = None
   \<and> getAllEntries demo_cfg empty_disk new_watcher = Inr []
   \<and> getLogFilePath demo_cfg (watch (demo_loop [])) = Some ''logs/s1.txt''
   \<and> files empty_disk ''logs/s1.txt'' = None
   \<and> getAllEntries demo_cfg empty_disk (watch (demo_loop [])) = Inr []
   \<and> \<not> existsSync empty_disk (LOGS_DIR demo_cfg)
   \<and> listSessions iso_collation demo_cfg empty_disk = Inr []
   \<and> dirs (empty_disk\<lparr>dirs := [''logs'' \<mapsto> []]\<rparr>) (LOGS_DIR demo_cfg) = Some []
   \<and> listSessions iso_collation demo_cfg (empty_disk\<lparr>dirs := [''logs'' \<mapsto> []]\<rparr>) = Inr []"
proof -
  have h1: "currentSessionId new_watcher = None"
    and h2: "getLogFilePath demo_cfg (watch (demo_loop [])) = Some ''logs/s1.txt''"
    and h3: "files empty_disk ''logs/s1.txt'' = None"
    and h4: "\<not> existsSync empty_disk (LOGS_DIR demo_cfg)"
    and h5: "dirs (empty_disk\<lparr>dirs := [''logs'' \<mapsto> []]\<rparr>) (LOGS_DIR demo_cfg) = Some []"
    by (simp_all add: new_watcher_def demo_loop_def demo_cfg_def getLogFilePath_def
        empty_disk_def existsSync_def)
  from h1 snapshot_and_index_return_empty [of demo_cfg empty_disk new_watcher]
  have a: "getAllEntries demo_cfg empty_disk new_watcher = Inr []" by blast
  from h2 h3 snapshot_and_index_return_empty [of demo_cfg empty_disk "watch (demo_loop [])" "''logs/s1.txt''"]
  have b: "getAllEntries demo_cfg empty_disk (watch (demo_loop [])) = Inr []" by blast
  from h4 snapshot_and_index_return_empty [of demo_cfg empty_disk _ _ iso_collation]
  have c: "listSessions iso_collation demo_cfg empty_disk = Inr []" by blast
  from h5 snapshot_and_index_return_empty
    [of demo_cfg "empty_disk\<lparr>dirs := [''logs'' \<mapsto> []]\<rparr>" _ _ iso_collation]
  have d: "listSessions iso_collation demo_cfg (empty_disk\<lparr>dirs := [''logs'' \<mapsto> []]\<rparr>) = Inr []"
    by blast
  from h1 h2 h3 h4 h5 a b c d show ?thesis by blast
qed

text \<open>
  Claim C6 as stated fails for \<open>listSessions\<close>, which guards against a missing
  directory only. With one log in the directory that exists and cannot be read,
  \<open>readFileSync\<close> raises inside \<open>map\<close> and nothing catches it: \<open>listSessions\<close> ends
  with that error, where \<open>getAllEntries\<close> on the same file returns the empty array.
\<close>

theorem listSessions_propagates_counterexample:
  "listSessions iso_collation demo_cfg locked_disk = Inl EACCES
   \<and> getAllEntries demo_cfg locked_disk (watch (demo_loop [])) = Inr []"
  by code_simp

text \<open>
  Where the extension occurs nowhere before the end of the name, \<open>replace\<close> strips it.
\<close>

lemma replace_strips_extension:
  assumes "ext \<noteq> []"
    and "\<forall>i<length stem. take (length ext) (drop i (stem @ ext)) \<noteq> ext"
  shows "replace (stem @ ext) ext [] = stem"
  using assms(2)
proof (induction stem)
  case Nil
  from assms(1) show ?case
    by (cases ext) simp_all
next
  case (Cons c stem)
  have "0 < length (c # stem)" by simp
  with Cons.prems have "take (length ext) (drop 0 ((c # stem) @ ext)) \<noteq> ext"
    by blast
  then have here: "take (length ext) (c # (stem @ ext)) \<noteq> ext"
    by simp
  have rest: "\<forall>i<length stem. take (length ext) (drop i (stem @ ext)) \<noteq> ext"
  proof (intro allI impI)
    fix i
    assume "i < length stem"
    then have "Suc i < length (c # stem)" by simp
    with Cons.prems have "take (length ext) (drop (Suc i) ((c # stem) @ ext)) \<noteq> ext"
      by blast
    then show "take (length ext) (drop i (stem @ ext)) \<noteq> ext" by simp
  qed
  have "replace ((c # stem) @ ext) ext [] = replace (c # (stem @ ext)) ext []"
    by simp
  also have "\<dots> = c # replace (stem @ ext) ext []"
    using here by simp
  also have "\<dots> = c # stem"
    by (simp only: Cons.IH [OF rest])
  finally show ?case .
qed

text \<open>
  Claim C9 on a log file named \<open>a.txtb.txt\<close>. The name ends in the extension, so the
  file is indexed; \<open>replace\<close> removes the first \<open>.txt\<close> in the name, not the one at its
  end, and the session is reported as \<open>ab.txt\<close>, which followed by the extension is
  not the file's name.
\<close>

theorem session_id_drops_first_occurrence:
  "is_log_name ''a.txtb.txt''
   \<and> map_sum id (map session_id) (listSessions iso_collation demo_cfg odd_name_disk) = Inr [''ab.txt'']
   \<and> ''ab.txt'' @ ''.txt'' \<noteq> ''a.txtb.txt''"
  by code_simp

section \<open>Ticks and reads interleaved: properties\<close>

lemma requests_snoc:
  "requests p a (gs @ [g]) =
     requests p a gs @
       [\<lparr>rpath = p, rstart = a + length (join_lines (concat gs)),
         rend = a + length (join_lines (concat gs)) + length (join_lines g)\<rparr>]"
  by (induction gs arbitrary: a) (auto simp: join_lines_append)

lemma join_lines_Nil_iff: "join_lines ls = [] \<longleftrightarrow> ls = []"
  by (cases ls) auto

lemma length_requests: "length (requests p a gs) = length gs"
  by (induction gs arbitrary: a) auto

lemma tailing_write:
  assumes "tailing cfg p c0 L seen queue fresh" and "list_all json_line ls"
  shows "tailing cfg p c0 (L\<lparr>disk := append_file (disk L) p (join_lines ls)\<rparr>) seen queue (fresh @ ls)"
  using assms holds_append [of "disk L" p "c0 @ join_lines (seen @ concat queue @ fresh)" "join_lines ls"]
  by (simp add: tailing_def join_lines_append)

lemma tailing_fire:
  assumes "tailing cfg p c0 L seen queue fresh"
  shows "\<exists>L'. step cfg raises Timer L = Inr L' \<and> emitted L' = emitted L
           \<and> subscribers (watch L') = subscribers (watch L)
           \<and> tailing cfg p c0 L' seen (if fresh = [] then queue else queue @ [fresh]) []"
proof -
  let ?c = "c0 @ join_lines (seen @ concat queue @ fresh)"
  have size: "getFileSize cfg (disk L) (watch L) = length ?c"
    using assms holds_size [of "disk L" p ?c] by (simp add: tailing_def getFileSize_def)
  have last: "lastSize (watch L) = length c0 + length (join_lines (seen @ concat queue))"
    using assms by (simp add: tailing_def)
  show ?thesis
  proof (cases "fresh = []")
    case True
    then have "step cfg raises Timer L = Inr L"
      using assms size last by (simp add: checkForChanges_def Let_def tailing_def)
    with True assms show ?thesis by simp
  next
    case False
    then have grow: "lastSize (watch L) < length ?c"
      using last by (simp add: join_lines_append join_lines_Nil_iff)
    let ?L' = "L\<lparr>watch := (watch L)\<lparr>lastSize := length ?c\<rparr>,
                  in_flight := in_flight L @ [\<lparr>rpath = p, rstart = lastSize (watch L), rend = length ?c\<rparr>]\<rparr>"
    have "step cfg raises Timer L = Inr ?L'"
      using assms size grow by (simp add: checkForChanges_def Let_def tailing_def)
    moreover have "tailing cfg p c0 ?L' seen (queue @ [fresh]) []"
      using assms False last
      by (simp add: tailing_def requests_snoc join_lines_append getLogFilePath_def)
    ultimately show ?thesis
      using False by (intro exI [of _ ?L']) simp
  qed
qed

lemma tailing_arrive:
  assumes "tailing cfg p c0 L seen (g # gs) fresh"
  shows "\<exists>L'. step cfg raises (Settle 0) L = Inr L'
           \<and> emitted L' = emit_each raises (watch L) (map (the \<circ> JSON_parse) g) (emitted L)
           \<and> subscribers (watch L') = subscribers (watch L)
           \<and> tailing cfg p c0 L' (seen @ g) gs fresh"
proof -
  let ?a = "length c0 + length (join_lines seen)"
  let ?rest = "join_lines (concat gs @ fresh)"
  have g: "g \<noteq> []" "\<forall>l\<in>set g. json_line l"
    using assms by (auto simp: tailing_def list_all_iff)
  have h: "holds (disk L) p ((c0 @ join_lines seen) @ join_lines g @ ?rest)"
    using assms by (simp add: tailing_def join_lines_append)
  then have "files (disk L) p = Some (Regular ((c0 @ join_lines seen) @ join_lines g @ ?rest))"
    using g(1) by (auto simp: holds_def join_lines_Nil_iff split: option.splits file_node.splits)
  then have slice: "slice_text (disk L) p ?a (?a + length (join_lines g)) = Inr (join_lines g)"
    by (simp add: slice_text_def)
  let ?L' = "L\<lparr>in_flight := requests p (?a + length (join_lines g)) gs,
                emitted := on_text raises (watch L) (join_lines g) (emitted L)\<rparr>"
  have "step cfg raises (Settle 0) L = Inr ?L'"
    using assms slice by (simp add: tailing_def)
  moreover have "on_text raises (watch L) (join_lines g) (emitted L) =
      emit_each raises (watch L) (map (the \<circ> JSON_parse) g) (emitted L)"
    using g(2) by (simp add: on_text_def parseLines_join_lines)
  moreover have "tailing cfg p c0 ?L' (seen @ g) gs fresh"
    using assms by (simp add: tailing_def join_lines_append add.assoc)
  ultimately show ?thesis
    by (intro exI [of _ ?L']) simp
qed

lemma decode_lines_json:
  "list_all json_line ls \<Longrightarrow> decode_lines ls = map (the \<circ> JSON_parse) ls"
  by (induction ls) (auto simp: json_line_def)

lemma tailing_arrive_decoded:
  assumes "tailing cfg p c0 L seen (g # gs) fresh"
  shows "\<exists>L'. step cfg raises (Settle 0) L = Inr L'
           \<and> emitted L' = emit_each raises (watch L) (decode_lines g) (emitted L)
           \<and> subscribers (watch L') = subscribers (watch L)
           \<and> tailing cfg p c0 L' (seen @ g) gs fresh"
proof -
  have "list_all json_line g"
    using assms by (simp add: tailing_def)
  from decode_lines_json [OF this] tailing_arrive [OF assms, of raises]
  show ?thesis by simp
qed

lemma tailing_run:
  assumes "tailing cfg p c0 L seen queue fresh" and "list_all json_line (written acts)"
  shows "\<exists>L' extra queue' fresh'.
           run cfg raises (map (act p) acts) L = Inr L'
           \<and> tailing cfg p c0 L' (seen @ extra) queue' fresh'
           \<and> extra @ concat queue' @ fresh' = concat queue @ fresh @ written acts
           \<and> length queue' \<le> length queue + length acts
           \<and> subscribers (watch L') = subscribers (watch L)
           \<and> emitted L' = emit_each raises (watch L) (decode_lines extra) (emitted L)"
  using assms
proof (induction acts arbitrary: L seen queue fresh)
  case Nil
  then show ?case
    by (intro exI [of _ L] exI [of _ "[]"] exI [of _ queue] exI [of _ fresh] conjI) simp_all
next
  case (Cons a acts)
  show ?case
  proof (cases a)
    case (Write ls)
    let ?L1 = "L\<lparr>disk := append_file (disk L) p (join_lines ls)\<rparr>"
    from Cons.prems(2) Write have ls: "list_all json_line ls" and rest: "list_all json_line (written acts)"
      by simp_all
    from Cons.IH [OF tailing_write [OF Cons.prems(1) ls] rest]
    obtain L' extra queue' fresh' where
      "run cfg raises (map (act p) acts) ?L1 = Inr L'"
      "tailing cfg p c0 L' (seen @ extra) queue' fresh'"
      "extra @ concat queue' @ fresh' = concat queue @ (fresh @ ls) @ written acts"
      "length queue' \<le> length queue + length acts"
      "subscribers (watch L') = subscribers (watch ?L1)"
      "emitted L' = emit_each raises (watch ?L1) (decode_lines extra) (emitted ?L1)"
      by blast
    note r = this
    show ?thesis
      apply (rule exI [of _ L'], rule exI [of _ extra], rule exI [of _ queue'], rule exI [of _ fresh'])
      using r Write
      by simp
  next
    case Fire
    let ?q = "if fresh = [] then queue else queue @ [fresh]"
    from tailing_fire [OF Cons.prems(1), of raises]
    obtain L1 where L1: "step cfg raises Timer L = Inr L1" "emitted L1 = emitted L"
      "subscribers (watch L1) = subscribers (watch L)" "tailing cfg p c0 L1 seen ?q []"
      by blast
    from Cons.prems(2) Fire have rest: "list_all json_line (written acts)"
      by simp
    from Cons.IH [OF L1(4) rest]
    obtain L' extra queue' fresh' where
      "run cfg raises (map (act p) acts) L1 = Inr L'"
      "tailing cfg p c0 L' (seen @ extra) queue' fresh'"
      "extra @ concat queue' @ fresh' = concat ?q @ [] @ written acts"
      "length queue' \<le> length ?q + length acts"
      "subscribers (watch L') = subscribers (watch L1)"
      "emitted L' = emit_each raises (watch L1) (decode_lines extra) (emitted L1)"
      by blast
    note r = this
    show ?thesis
      apply (rule exI [of _ L'], rule exI [of _ extra], rule exI [of _ queue'], rule exI [of _ fresh'])
      using r Fire L1(1,2,3) emit_each_subscribers [OF L1(3)]
      by (auto split: if_splits)
  next
    case Arrive
    from Cons.prems(2) Arrive have rest: "list_all json_line (written acts)"
      by simp
    show ?thesis
    proof (cases queue)
      case Nil
      then have idle: "step cfg raises (Settle 0) L = Inr L"
        using Cons.prems(1) by (simp add: tailing_def)
      from Cons.IH [OF Cons.prems(1) rest]
      obtain L' extra queue' fresh' where
        "run cfg raises (map (act p) acts) L = Inr L'"
        "tailing cfg p c0 L' (seen @ extra) queue' fresh'"
        "extra @ concat queue' @ fresh' = concat queue @ fresh @ written acts"
        "length queue' \<le> length queue + length acts"
        "subscribers (watch L') = subscribers (watch L)"
        "emitted L' = emit_each raises (watch L) (decode_lines extra) (emitted L)"
        by blast
      note r = this
      show ?thesis
        apply (rule exI [of _ L'], rule exI [of _ extra], rule exI [of _ queue'], rule exI [of _ fresh'])
        using r Arrive idle
        by simp
    next
      case (Cons g gs)
      from tailing_arrive_decoded [OF Cons.prems(1) [unfolded Cons], of raises]
      obtain L1 where L1: "step cfg raises (Settle 0) L = Inr L1"
        "emitted L1 = emit_each raises (watch L) (decode_lines g) (emitted L)"
        "subscribers (watch L1) = subscribers (watch L)"
        "tailing cfg p c0 L1 (seen @ g) gs fresh"
        by blast
      from Cons.IH [OF L1(4) rest]
      obtain L' extra queue' fresh' where
        "run cfg raises (map (act p) acts) L1 = Inr L'"
        "tailing cfg p c0 L' ((seen @ g) @ extra) queue' fresh'"
        "extra @ concat queue' @ fresh' = concat gs @ fresh @ written acts"
        "length queue' \<le> length gs + length acts"
        "subscribers (watch L') = subscribers (watch L1)"
        "emitted L' = emit_each raises (watch L1) (decode_lines extra) (emitted L1)"
        by blast
      note r = this
      show ?thesis
        apply (rule exI [of _ L'], rule exI [of _ "g @ extra"], rule exI [of _ queue'], rule exI [of _ fresh'])
        using r Arrive Cons L1(1,2,3) emit_each_subscribers [OF L1(3)]
        by (simp add: emit_each_append decode_lines_append)
    qed
  qed
qed

lemma tailing_drain:
  assumes "tailing cfg p c0 L seen queue fresh" and "length queue \<le> k"
  shows "\<exists>L'. run cfg raises (replicate k (Settle 0)) L = Inr L'
           \<and> tailing cfg p c0 L' (seen @ concat queue) [] fresh
           \<and> subscribers (watch L') = subscribers (watch L)
           \<and> emitted L' =
               emit_each raises (watch L) (decode_lines (concat queue)) (emitted L)"
  using assms
proof (induction k arbitrary: L seen queue)
  case 0
  then show ?case by (intro exI [of _ L]) simp
next
  case (Suc k)
  show ?case
  proof (cases queue)
    case Nil
    then have idle: "step cfg raises (Settle 0) L = Inr L"
      using Suc.prems(1) by (simp add: tailing_def)
    from Suc.IH [OF Suc.prems(1) [unfolded Nil]] obtain L' where
      "run cfg raises (replicate k (Settle 0)) L = Inr L'"
      "tailing cfg p c0 L' (seen @ concat []) [] fresh"
      "subscribers (watch L') = subscribers (watch L)"
      "emitted L' = emit_each raises (watch L) (decode_lines (concat [])) (emitted L)"
      by auto
    then show ?thesis
      using Nil idle by (intro exI [of _ L']) simp
  next
    case (Cons g gs)
    from tailing_arrive_decoded [OF Suc.prems(1) [unfolded Cons], of raises]
    obtain L1 where L1: "step cfg raises (Settle 0) L = Inr L1"
      "emitted L1 = emit_each raises (watch L) (decode_lines g) (emitted L)"
      "subscribers (watch L1) = subscribers (watch L)"
      "tailing cfg p c0 L1 (seen @ g) gs fresh"
      by blast
    have "length gs \<le> k"
      using Suc.prems(2) Cons by simp
    from Suc.IH [OF L1(4) this] obtain L' where
      "run cfg raises (replicate k (Settle 0)) L1 = Inr L'"
      "tailing cfg p c0 L' ((seen @ g) @ concat gs) [] fresh"
      "subscribers (watch L') = subscribers (watch L1)"
      "emitted L' = emit_each raises (watch L1) (decode_lines (concat gs)) (emitted L1)"
      by blast
    then show ?thesis
      using Cons L1(1,2,3) emit_each_subscribers [OF L1(3)]
      by (intro exI [of _ L']) (simp add: emit_each_append decode_lines_append)
  qed
qed

text \<open>
  Claim C1, as the code has it. A started watcher tracks the file \<open>p\<close>, which holds
  \<open>c\<close>, with \<open>lastSize\<close> at its end and no read in flight. Then well-formed lines are
  written in any number of appends, the timer fires at any points between them, and
  the reads arrive at any later points, in any interleaving \<open>acts\<close>, but in the order
  they were issued: every arrival is that of the oldest read in flight. After one
  more tick, and once the reads in flight have arrived, \<open>lastSize\<close> has advanced by
  exactly the bytes written and every subscriber has been called with the parsed
  lines: all of them, once each, in the order they were written.
\<close>

theorem appended_lines_are_delivered_once_in_order:
  assumes "interval (watch L)" and "getLogFilePath cfg (watch L) = Some p"
    and "in_flight L = []" and "holds (disk L) p c" and "lastSize (watch L) = length c"
    and "distinct (subscribers (watch L))"
    and "list_all json_line (written acts)"
  shows "\<exists>L'. run cfg raises (map (act p) acts @ Timer # replicate (Suc (length acts)) (Settle 0)) L = Inr L'
           \<and> in_flight L' = []
           \<and> lastSize (watch L') = length c + length (join_lines (written acts))
           \<and> (\<forall>cb\<in>set (subscribers (watch L)).
                 received cb (emitted L') =
                   received cb (emitted L) @ map (the \<circ> JSON_parse) (written acts))"
proof -
  have start: "tailing cfg p c L [] [] []"
    using assms(1-5) by (simp add: tailing_def)
  from tailing_run [OF start assms(7), of raises]
  obtain L1 extra q1 f1 where L1:
    "run cfg raises (map (act p) acts) L = Inr L1"
    "tailing cfg p c L1 extra q1 f1"
    "extra @ concat q1 @ f1 = written acts"
    "length q1 \<le> length acts"
    "subscribers (watch L1) = subscribers (watch L)"
    "emitted L1 = emit_each raises (watch L) (decode_lines extra) (emitted L)"
    by auto
  let ?q2 = "if f1 = [] then q1 else q1 @ [f1]"
  from tailing_fire [OF L1(2), of raises]
  obtain L2 where L2: "step cfg raises Timer L1 = Inr L2" "emitted L2 = emitted L1"
    "subscribers (watch L2) = subscribers (watch L1)" "tailing cfg p c L2 extra ?q2 []"
    by blast
  have "length ?q2 \<le> Suc (length acts)"
    using L1(4) by simp
  from tailing_drain [OF L2(4) this, of raises]
  obtain L3 where L3: "run cfg raises (replicate (Suc (length acts)) (Settle 0)) L2 = Inr L3"
    "tailing cfg p c L3 (extra @ concat ?q2) [] []"
    "subscribers (watch L3) = subscribers (watch L2)"
    "emitted L3 = emit_each raises (watch L2) (decode_lines (concat ?q2)) (emitted L2)"
    by blast
  have all: "extra @ concat ?q2 = written acts"
    using L1(3) by (cases "f1 = []") simp_all
  have subs: "subscribers (watch L2) = subscribers (watch L)"
    using L2(3) L1(5) by simp
  have "emitted L3 = emit_each raises (watch L) (decode_lines (concat ?q2))
         (emit_each raises (watch L) (decode_lines extra) (emitted L))"
    unfolding L3(4) L2(2) L1(6) by (rule emit_each_subscribers [OF subs])
  also have "\<dots> = emit_each raises (watch L) (decode_lines (extra @ concat ?q2)) (emitted L)"
    by (simp only: decode_lines_append emit_each_append)
  finally have out: "emitted L3 = emit_each raises (watch L) (decode_lines (written acts)) (emitted L)"
    unfolding all .
  have ran: "run cfg raises (map (act p) acts @ Timer # replicate (Suc (length acts)) (Settle 0)) L = Inr L3"
    unfolding run_append L1(1) using L2(1) L3(1) by simp
  have "in_flight L3 = []" "lastSize (watch L3) = length c + length (join_lines (written acts))"
    using L3(2) unfolding all by (simp_all add: tailing_def)
  moreover have "\<forall>cb\<in>set (subscribers (watch L)).
      received cb (emitted L3) = received cb (emitted L) @ map (the \<circ> JSON_parse) (written acts)"
    unfolding out using assms(6,7) by (simp add: received_emit_each decode_lines_json)
  ultimately show ?thesis
    using ran by blast
qed

theorem appended_lines_are_delivered_once_in_order_witness:
  \<open>list_all json_line (written demo_acts)
   \<and> (\<exists>L'. run demo_cfg (\<lambda>cb e. cb = 1)
              (map (act ''logs/s1.txt'') demo_acts @ Timer # replicate (Suc (length demo_acts)) (Settle 0))
              (demo_loop ''{"old":'') = Inr L'
         \<and> lastSize (watch L') = 21
         \<and> received 1 (emitted L') = [JObject [(''a'', JNumber ''1'')], JNumber ''2'', JArray [JNumber ''3'']]
         \<and> received 2 (emitted L') = [JObject [(''a'', JNumber ''1'')], JNumber ''2'', JArray [JNumber ''3'']])\<close>
proof -
  have l: "list_all json_line (written demo_acts)"
    by (simp add: demo_acts_def json_line_def whole_is_json parse_two parse_three)
  from appended_lines_are_delivered_once_in_order
    [OF demo_loop_tracking(1-6) [of \<open>''{"old":''\<close>] l, of "\<lambda>cb e. cb = 1"]
  obtain L' where \<open>run demo_cfg (\<lambda>cb e. cb = 1)
        (map (act ''logs/s1.txt'') demo_acts @ Timer # replicate (Suc (length demo_acts)) (Settle 0))
        (demo_loop ''{"old":'') = Inr L'\<close>
    \<open>lastSize (watch L') = length ''{"old":'' + length (join_lines (written demo_acts))\<close>
    \<open>\<forall>cb\<in>set (subscribers (watch (demo_loop ''{"old":''))).
        received cb (emitted L') = received cb (emitted (demo_loop ''{"old":'')) @
          map (the \<circ> JSON_parse) (written demo_acts)\<close>
    by blast
  then have \<open>run demo_cfg (\<lambda>cb e. cb = 1)
        (map (act ''logs/s1.txt'') demo_acts @ Timer # replicate (Suc (length demo_acts)) (Settle 0))
        (demo_loop ''{"old":'') = Inr L'
      \<and> lastSize (watch L') = 21
      \<and> received 1 (emitted L') = [JObject [(''a'', JNumber ''1'')], JNumber ''2'', JArray [JNumber ''3'']]
      \<and> received 2 (emitted L') = [JObject [(''a'', JNumber ''1'')], JNumber ''2'', JArray [JNumber ''3'']]\<close>
    by (simp add: demo_loop_def demo_acts_def received_def whole_is_json parse_two parse_three)
  with l show ?thesis by blast
qed

text \<open>
  Claim C1 as stated fails, since nothing makes the reads settle in the order they
  were issued. The line \<open>1\<close> is appended and a tick issues the read of it; the line
  \<open>2\<close> is appended and the next tick issues the read of it. The second read settles
  first: both subscribers are called with \<open>2\<close> before \<open>1\<close>, the reverse of the order
  the lines were appended in.
\<close>

theorem reads_settle_in_any_order_counterexample:
  "map_sum id (\<lambda>L. (lastSize (watch L), in_flight L, received 1 (emitted L), received 2 (emitted L)))
     (run demo_cfg (\<lambda>cb e. False) (two_ticks @ [Settle 1, Settle 0]) (demo_loop []))
     = Inr (4, [], [JNumber ''2'', JNumber ''1''], [JNumber ''2'', JNumber ''1''])"
  by code_simp

end
